theory Spec2Isabelle
  imports Main "HOL-Library.Sublist"
begin

section \<open>The node store of parser.go\<close>

text \<open>
  A Go string and a Go byte slice are both sequences of bytes; they are modelled as
  \<^typ>\<open>string\<close>, a list of 8-bit characters. Pointers into the node store
  (\<open>*Node\<close>) are indices into the list of nodes, \<open>nil\<close> is \<open>None\<close>.
\<close>

datatype NodeKind = AnyNode | StartNode | EndNode | AttrNode | TextNode | CommentNode | ProcInstNode

record Name =
  Space :: string
  Local :: string

text \<open>
  The field \<open>down\<close> is a slice of pointers. \<open>DPool off len\<close> is a window of the shared
  array \<open>downs\<close> of the builder; \<open>DOwn xs\<close> is a slice with a backing array of its own
  (the \<open>nil\<close> slice is \<open>DOwn []\<close>; \<open>append\<close> beyond the capacity yields one).
\<close>

datatype dslice = DPool nat nat | DOwn "nat option list"

text \<open>
  \<open>text'\<close> and \<open>end'\<close> are the fields \<open>text\<close> and \<open>end\<close>. The field \<open>nodes\<close> is a
  slice header that is either \<open>nil\<close> or the whole node store; \<open>nodes_len\<close> is its length.
\<close>

record Node =
  kind :: NodeKind
  name :: Name
  attr :: string
  text' :: string
  nodes_len :: nat
  pos :: nat
  end' :: nat
  up :: "nat option"
  down :: dslice

datatype error = EOF | SyntaxError string | Panic

definition zero_name :: Name where
  "zero_name = \<lparr>Space = [], Local = []\<rparr>"

definition zero_node :: "NodeKind \<Rightarrow> Node" where
  "zero_node k = \<lparr>kind = k, name = zero_name, attr = [], text' = [], nodes_len = 0,
     pos = 0, end' = 0, up = None, down = DOwn []\<rparr>"

text \<open>\<open>node.nodes[i]\<close>: an index beyond the slice is a run-time panic (\<open>None\<close>).\<close>

definition node_at :: "Node list \<Rightarrow> Node \<Rightarrow> nat \<Rightarrow> Node option" where
  "node_at ns n i = (if i < nodes_len n \<and> i < length ns then Some (ns ! i) else None)"

section \<open>String value: Bytes and String\<close>

fun Bytes_size :: "Node list \<Rightarrow> Node \<Rightarrow> nat list \<Rightarrow> nat \<Rightarrow> nat option" where
  "Bytes_size ns n [] sz = Some sz"
| "Bytes_size ns n (i # is) sz =
     (case node_at ns n i of
        None \<Rightarrow> None
      | Some m \<Rightarrow> Bytes_size ns n is (if kind m = TextNode then sz + length (text' m) else sz))"

fun Bytes_copy :: "Node list \<Rightarrow> Node \<Rightarrow> nat list \<Rightarrow> string \<Rightarrow> string option" where
  "Bytes_copy ns n [] text = Some text"
| "Bytes_copy ns n (i # is) text =
     (case node_at ns n i of
        None \<Rightarrow> None
      | Some m \<Rightarrow> Bytes_copy ns n is (if kind m = TextNode then text @ text' m else text))"

definition Bytes :: "Node list \<Rightarrow> Node \<Rightarrow> string option" where
  "Bytes ns n =
     (if kind n = AttrNode then Some (attr n)
      else if kind n \<noteq> StartNode then Some (text' n)
      else (case Bytes_size ns n [pos n ..< end' n] 0 of
              None \<Rightarrow> None
            | Some sz \<Rightarrow> Bytes_copy ns n [pos n ..< end' n] []))"

definition String :: "Node list \<Rightarrow> Node \<Rightarrow> string option" where
  "String ns n = (if kind n = AttrNode then Some (attr n) else Bytes ns n)"

section \<open>Ranging over a string\<close>

text \<open>
  \<open>for i := range s\<close> over a Go string does not visit every byte: it decodes UTF-8 and
  yields the byte offset at which each code point starts. A byte that does not start a
  well-formed encoding counts as one code point of width 1. \<open>rune_width\<close> is the width of
  the code point at the head of a non-empty string, by the table of the UTF-8 decoder:
  the lead byte fixes the length and the interval allowed for the second byte, every
  further byte lies in \<open>0x80..0xBF\<close>.
\<close>

definition in_range :: "nat \<Rightarrow> nat \<Rightarrow> char \<Rightarrow> bool" where
  "in_range lo hi c = (lo \<le> of_char c \<and> of_char c \<le> hi)"

fun conts :: "nat \<Rightarrow> string \<Rightarrow> bool" where
  "conts 0 bs = True"
| "conts (Suc k) [] = False"
| "conts (Suc k) (b # bs) = (in_range 0x80 0xBF b \<and> conts k bs)"

definition multi :: "nat \<Rightarrow> nat \<Rightarrow> nat \<Rightarrow> string \<Rightarrow> nat" where
  "multi w lo hi rest =
     (case rest of
        [] \<Rightarrow> 1
      | b1 # bs \<Rightarrow> if in_range lo hi b1 \<and> conts (w - 2) bs then w else 1)"

definition rune_width :: "string \<Rightarrow> nat" where
  "rune_width bs =
     (case bs of
        [] \<Rightarrow> 1
      | b0 # rest \<Rightarrow>
          if in_range 0x00 0x7F b0 then 1
          else if in_range 0xC2 0xDF b0 then multi 2 0x80 0xBF rest
          else if in_range 0xE0 0xE0 b0 then multi 3 0xA0 0xBF rest
          else if in_range 0xE1 0xEC b0 then multi 3 0x80 0xBF rest
          else if in_range 0xED 0xED b0 then multi 3 0x80 0x9F rest
          else if in_range 0xEE 0xEF b0 then multi 3 0x80 0xBF rest
          else if in_range 0xF0 0xF0 b0 then multi 4 0x90 0xBF rest
          else if in_range 0xF1 0xF3 b0 then multi 4 0x80 0xBF rest
          else if in_range 0xF4 0xF4 b0 then multi 4 0x80 0x8F rest
          else 1)"

function range_string :: "string \<Rightarrow> nat \<Rightarrow> nat list" where
  "range_string s i =
     (if i < length s then i # range_string s (i + rune_width (drop i s)) else [])"
  by pat_completeness auto
termination
proof (relation "measure (\<lambda>(s, i). length s - i)")
  show "wf (measure (\<lambda>(s, i). length s - i))"
    by simp
next
  fix s :: string and i :: nat
  assume "i < length s"
  moreover have "0 < rune_width bs" for bs
    by (auto simp: rune_width_def multi_def split: list.splits)
  ultimately show "((s, i + rune_width (drop i s)), (s, i)) \<in> measure (\<lambda>(s, i). length s - i)"
    by (simp add: diff_less_mono2)
qed

section \<open>equals\<close>

text \<open>
  The loop \<open>for i := range s\<close> of the branch for nodes that are neither attributes nor
  elements: it compares \<open>s[i]\<close> with \<open>node.text[i]\<close> at the offsets the range yields.
\<close>

fun equals_text :: "string \<Rightarrow> string \<Rightarrow> nat list \<Rightarrow> bool" where
  "equals_text s t [] = True"
| "equals_text s t (i # is) = (if s ! i \<noteq> t ! i then False else equals_text s t is)"

text \<open>
  The loop over the bytes \<open>c\<close> of one text fragment in the branch for elements;
  \<open>None\<close> is \<open>return false\<close>, \<open>Some si\<close> the counter after the fragment.
\<close>

fun equals_frag :: "string \<Rightarrow> nat \<Rightarrow> string \<Rightarrow> nat option" where
  "equals_frag s si [] = Some si"
| "equals_frag s si (c # cs) =
     (if si \<ge> length s then None
      else if s ! si \<noteq> c then None
      else equals_frag s (si + 1) cs)"

fun equals_loop :: "Node list \<Rightarrow> Node \<Rightarrow> string \<Rightarrow> nat list \<Rightarrow> nat \<Rightarrow> bool option" where
  "equals_loop ns n s [] si = Some (si = length s)"
| "equals_loop ns n s (i # is) si =
     (case node_at ns n i of
        None \<Rightarrow> None
      | Some m \<Rightarrow>
          if kind m = TextNode then
            (case equals_frag s si (text' m) of
               None \<Rightarrow> Some False
             | Some si' \<Rightarrow> equals_loop ns n s is si')
          else equals_loop ns n s is si)"

definition equals :: "Node list \<Rightarrow> Node \<Rightarrow> string \<Rightarrow> bool option" where
  "equals ns n s =
     (if kind n = AttrNode then Some (s = attr n)
      else if kind n \<noteq> StartNode then
        (if length s \<noteq> length (text' n) then Some False
         else Some (equals_text s (text' n) (range_string s 0)))
      else equals_loop ns n s [pos n ..< end' n] 0)"

section \<open>strings.HasPrefix and strings.Contains\<close>

text \<open>
  The two functions of Go's \<open>strings\<close> package that the attribute branches call, by
  their documented meaning: \<open>HasPrefix s prefix\<close> tests whether \<open>s\<close> begins with
  \<open>prefix\<close>, \<open>Contains s substr\<close> whether \<open>substr\<close> is within \<open>s\<close>. They also serve
  as the textbook checks on a materialized string value.
\<close>

definition HasPrefix :: "string \<Rightarrow> string \<Rightarrow> bool" where
  "HasPrefix s p = (length p \<le> length s \<and> take (length p) s = p)"

fun Contains :: "string \<Rightarrow> string \<Rightarrow> bool" where
  "Contains [] sub = (sub = [])"
| "Contains (c # cs) sub = (HasPrefix (c # cs) sub \<or> Contains cs sub)"

section \<open>contains\<close>

datatype scan = Mismatch | Found | Cont nat

text \<open>
  \<open>for ci++; ci < len(text) && si < len(s); ci++\<close>: the rest of the current fragment,
  \<open>rest = text[ci:]\<close>. \<open>None\<close> is \<open>continue NextTry\<close>, \<open>Some si\<close> the counter after the loop.
\<close>

fun contains_here :: "string \<Rightarrow> nat \<Rightarrow> string \<Rightarrow> nat option" where
  "contains_here s si [] = Some si"
| "contains_here s si (c # rest) =
     (if si < length s then
        (if s ! si \<noteq> c then None else contains_here s (si + 1) rest)
      else Some si)"

text \<open>
  \<open>for _, c := range node.nodes[j].text\<close>: one later fragment. \<open>Mismatch\<close> is
  \<open>continue NextTry\<close>, \<open>Found\<close> is \<open>return true\<close>, \<open>Cont si\<close> the end of the fragment.
\<close>

fun contains_next :: "string \<Rightarrow> nat \<Rightarrow> string \<Rightarrow> scan" where
  "contains_next s si [] = Cont si"
| "contains_next s si (c # cs) =
     (if s ! si \<noteq> c then Mismatch
      else if si + 1 = length s then Found
      else contains_next s (si + 1) cs)"

text \<open>\<open>for j := i + 1; j < node.end; j++\<close>; \<open>None\<close> is a panic.\<close>

fun contains_later :: "Node list \<Rightarrow> Node \<Rightarrow> string \<Rightarrow> nat list \<Rightarrow> nat \<Rightarrow> scan option" where
  "contains_later ns n s [] si = Some (Cont si)"
| "contains_later ns n s (j # js) si =
     (case node_at ns n j of
        None \<Rightarrow> None
      | Some m \<Rightarrow>
          if kind m = TextNode then
            (case contains_next s si (text' m) of
               Mismatch \<Rightarrow> Some Mismatch
             | Found \<Rightarrow> Some Found
             | Cont si' \<Rightarrow> contains_later ns n s js si')
          else contains_later ns n s js si)"

text \<open>
  The loop labelled \<open>NextTry\<close>, \<open>for ci, c := range text\<close>, at \<open>text[ci:] = c # rest\<close>.
  \<open>Some True\<close> is \<open>return true\<close>, \<open>Some False\<close> the end of the loop.
\<close>

fun contains_try :: "Node list \<Rightarrow> Node \<Rightarrow> string \<Rightarrow> nat \<Rightarrow> string \<Rightarrow> bool option" where
  "contains_try ns n s i [] = Some False"
| "contains_try ns n s i (c # rest) =
     (if c \<noteq> s ! 0 then contains_try ns n s i rest
      else
        (case contains_here s 1 rest of
           None \<Rightarrow> contains_try ns n s i rest
         | Some si \<Rightarrow>
             if si = length s then Some True
             else
               (case contains_later ns n s [i + 1 ..< end' n] si of
                  None \<Rightarrow> None
                | Some Found \<Rightarrow> Some True
                | Some _ \<Rightarrow> contains_try ns n s i rest)))"

fun contains_loop :: "Node list \<Rightarrow> Node \<Rightarrow> string \<Rightarrow> nat list \<Rightarrow> bool option" where
  "contains_loop ns n s [] = Some False"
| "contains_loop ns n s (i # is) =
     (case node_at ns n i of
        None \<Rightarrow> None
      | Some m \<Rightarrow>
          if kind m = TextNode then
            (case contains_try ns n s i (text' m) of
               None \<Rightarrow> None
             | Some True \<Rightarrow> Some True
             | Some False \<Rightarrow> contains_loop ns n s is)
          else contains_loop ns n s is)"

definition contains :: "Node list \<Rightarrow> Node \<Rightarrow> string \<Rightarrow> bool option" where
  "contains ns n s =
     (if length s = 0 then Some True
      else if kind n = AttrNode then Some (Contains (attr n) s)
      else contains_loop ns n s [pos n ..< end' n])"

section \<open>startsWith\<close>

text \<open>
  \<open>for _, c := range node.nodes[i].text\<close>: \<open>Found\<close> is \<open>return true\<close>; \<open>Cont si\<close> is
  the counter with which the loop over the nodes goes on, reached at the end of the
  fragment and also by \<open>break\<close>, which leaves this inner loop only.
\<close>

fun startsWith_frag :: "string \<Rightarrow> nat \<Rightarrow> string \<Rightarrow> scan" where
  "startsWith_frag s si [] = Cont si"
| "startsWith_frag s si (c # cs) =
     (if c \<noteq> s ! si then Cont si
      else if si + 1 = length s then Found
      else startsWith_frag s (si + 1) cs)"

fun startsWith_loop :: "Node list \<Rightarrow> Node \<Rightarrow> string \<Rightarrow> nat list \<Rightarrow> nat \<Rightarrow> bool option" where
  "startsWith_loop ns n s [] si = Some False"
| "startsWith_loop ns n s (i # is) si =
     (case node_at ns n i of
        None \<Rightarrow> None
      | Some m \<Rightarrow>
          if kind m \<noteq> TextNode then startsWith_loop ns n s is si
          else
            (case startsWith_frag s si (text' m) of
               Found \<Rightarrow> Some True
             | Cont si' \<Rightarrow> startsWith_loop ns n s is si'
             | Mismatch \<Rightarrow> startsWith_loop ns n s is si))"

definition startsWith :: "Node list \<Rightarrow> Node \<Rightarrow> string \<Rightarrow> bool option" where
  "startsWith ns n s =
     (if length s = 0 then Some True
      else if kind n = AttrNode then Some (HasPrefix (attr n) s)
      else startsWith_loop ns n s [pos n ..< end' n] 0)"

section \<open>The builder: the second loop of ParseDecoder and ParseHTML\<close>

text \<open>
  Both functions end with the same loop over the node store (lines 273-316 and 391-434).
  Its state is the node store, mutated in place through pointers, the stack of open
  elements, the shared array \<open>downs\<close> and the counter \<open>downCount\<close>.
\<close>

record bstate =
  nodes :: "Node list"
  stack :: "nat list"
  downs :: "nat option list"
  downCount :: nat

definition set_node :: "nat \<Rightarrow> (Node \<Rightarrow> Node) \<Rightarrow> bstate \<Rightarrow> bstate" where
  "set_node i f st = st\<lparr>nodes := (nodes st)[i := f (nodes st ! i)]\<rparr>"

text \<open>
  \<open>case StartNode, AttrNode, TextNode, CommentNode, ProcInstNode\<close> at position \<open>p\<close>.
\<close>

definition step_open :: "nat \<Rightarrow> bstate \<Rightarrow> bstate" where
  "step_open p st =
     (let st1 = set_node p (\<lambda>n. n\<lparr>nodes_len := length (nodes st), pos := p\<rparr>) st;
          st2 = (if length (stack st1) > 0
                 then set_node p (\<lambda>n. n\<lparr>up := Some (last (stack st1))\<rparr>) st1 else st1)
      in if kind (nodes st2 ! p) = StartNode
         then st2\<lparr>stack := stack st2 @ [p]\<rparr>
         else set_node p (\<lambda>n. n\<lparr>end' := p + 1\<rparr>) st2)"

text \<open>
  \<open>node.down = append(node.down, &nodes[i])\<close> for the node at index \<open>n\<close>: within the
  capacity of a window of \<open>downs\<close> the pointer is written into \<open>downs\<close> itself.
\<close>

definition append_down :: "nat \<Rightarrow> nat \<Rightarrow> bstate \<Rightarrow> bstate" where
  "append_down n i st =
     (case down (nodes st ! n) of
        DPool off len \<Rightarrow>
          if off + len < length (downs st)
          then set_node n (\<lambda>m. m\<lparr>down := DPool off (len + 1)\<rparr>)
                 (st\<lparr>downs := (downs st)[off + len := Some i]\<rparr>)
          else set_node n (\<lambda>m. m\<lparr>down := DOwn (take len (drop off (downs st)) @ [Some i])\<rparr>) st
      | DOwn xs \<Rightarrow> set_node n (\<lambda>m. m\<lparr>down := DOwn (xs @ [Some i])\<rparr>) st)"

text \<open>\<open>for i := node.pos + 1; i < node.end; i++\<close> for the node at index \<open>n\<close>.\<close>

fun collect :: "nat \<Rightarrow> nat list \<Rightarrow> bstate \<Rightarrow> bstate" where
  "collect n [] st = st"
| "collect n (i # is) st =
     collect n is
       (if up (nodes st ! i) = Some n
           \<and> kind (nodes st ! i) \<in> {StartNode, TextNode, CommentNode, ProcInstNode}
        then (append_down n i st)\<lparr>downCount := downCount st + 1\<rparr>
        else st)"

text \<open>
  \<open>case EndNode\<close> at position \<open>p\<close>. \<open>stack[len(stack)-1]\<close> on an empty stack and
  \<open>downs[downCount:downCount]\<close> beyond the array are panics. The result carries the
  returned root when the stack is empty after the pop.
\<close>

definition step_end :: "nat \<Rightarrow> bstate \<Rightarrow> error + (nat option \<times> bstate)" where
  "step_end p st =
     (if stack st = [] then Inl Panic
      else
        let n = last (stack st);
            st1 = set_node n (\<lambda>m. m\<lparr>end' := p\<rparr>) st;
            st2 = st1\<lparr>stack := butlast (stack st1)\<rparr>
        in if downCount st2 > length (downs st2) then Inl Panic
           else
             let st3 = set_node n (\<lambda>m. m\<lparr>down := DPool (downCount st2) 0\<rparr>) st2;
                 st4 = collect n [pos (nodes st3 ! n) + 1 ..< end' (nodes st3 ! n)] st3
             in Inr (if length (stack st4) = 0 then Some n else None, st4))"

definition step :: "nat \<Rightarrow> bstate \<Rightarrow> error + (nat option \<times> bstate)" where
  "step p st =
     (if kind (nodes st ! p) \<in> {StartNode, AttrNode, TextNode, CommentNode, ProcInstNode}
      then Inr (None, step_open p st)
      else if kind (nodes st ! p) = EndNode then step_end p st
      else Inr (None, st))"

text \<open>\<open>for pos := range nodes\<close>, and \<open>return nil, io.EOF\<close> after it.\<close>

fun run :: "nat list \<Rightarrow> bstate \<Rightarrow> error + (nat \<times> bstate)" where
  "run [] st = Inl EOF"
| "run (p # ps) st =
     (case step p st of
        Inl e \<Rightarrow> Inl e
      | Inr (Some root, st') \<Rightarrow> Inr (root, st')
      | Inr (None, st') \<Rightarrow> run ps st')"

definition init :: "Node list \<Rightarrow> bstate" where
  "init ns = \<lparr>nodes = ns, stack = [], downs = replicate (length ns) None, downCount = 0\<rparr>"

definition build :: "Node list \<Rightarrow> error + (nat \<times> bstate)" where
  "build ns = run [0 ..< length ns] (init ns)"

text \<open>The pointers a slice \<open>down\<close> holds, read from the final state.\<close>

definition down_view :: "bstate \<Rightarrow> nat \<Rightarrow> nat option list" where
  "down_view st n =
     (case down (nodes st ! n) of
        DPool off len \<Rightarrow> take len (drop off (downs st))
      | DOwn xs \<Rightarrow> xs)"

section \<open>ParseDecoder: from tokens to the node store\<close>

text \<open>
  The tokens of \<open>encoding/xml\<close>. The decoder is the list of the results of its calls of
  \<open>Token\<close>; past the end of the list it returns \<open>io.EOF\<close>.
\<close>

datatype token =
    StartElement Name "(Name \<times> string) list"
  | EndElement Name
  | CharData string
  | Comment string
  | ProcInst string string
  | Directive string

text \<open>
  \<open>texti := len(text); text = append(text, t...)\<close> and the slice
  \<open>text[texti : texti+len(t)]\<close>. The shared buffer only grows, the bytes below its
  length are never written again, so a node keeps the bytes its slice had when taken.
\<close>

definition add_text :: "string \<Rightarrow> string \<Rightarrow> string \<times> string" where
  "add_text text t =
     (let texti = length text; text1 = text @ t
      in (text1, take (texti + length t - texti) (drop texti text1)))"

fun token_nodes :: "token \<Rightarrow> Node list \<times> string \<Rightarrow> Node list \<times> string" where
  "token_nodes (EndElement nm) (ns, text) = (ns @ [zero_node EndNode], text)"
| "token_nodes (StartElement nm as) (ns, text) =
     ((ns @ [(zero_node StartNode)\<lparr>name := nm\<rparr>])
        @ map (\<lambda>(an, av). (zero_node AttrNode)\<lparr>name := an, attr := av\<rparr>) as, text)"
| "token_nodes (CharData t) (ns, text) =
     (let (text1, sl) = add_text text t in (ns @ [(zero_node TextNode)\<lparr>text' := sl\<rparr>], text1))"
| "token_nodes (Comment t) (ns, text) =
     (let (text1, sl) = add_text text t in (ns @ [(zero_node CommentNode)\<lparr>text' := sl\<rparr>], text1))"
| "token_nodes (ProcInst target inst) (ns, text) =
     (let (text1, sl) = add_text text inst
      in (ns @ [(zero_node ProcInstNode)\<lparr>name := \<lparr>Space = [], Local = target\<rparr>, text' := sl\<rparr>],
          text1))"
| "token_nodes (Directive t) (ns, text) = (ns, text)"

fun read_tokens :: "(error + token) list \<Rightarrow> Node list \<times> string \<Rightarrow> error + Node list \<times> string" where
  "read_tokens [] acc = Inr acc"
| "read_tokens (Inl e # d) acc = (if e = EOF then Inr acc else Inl e)"
| "read_tokens (Inr t # d) acc = read_tokens d (token_nodes t acc)"

definition ParseDecoder :: "(error + token) list \<Rightarrow> error + (nat \<times> bstate)" where
  "ParseDecoder d =
     (case read_tokens d ([zero_node StartNode], []) of
        Inl e \<Rightarrow> Inl e
      | Inr (ns, text) \<Rightarrow> build (ns @ [zero_node EndNode]))"


section \<open>ParseHTML: from the HTML document tree to the node store\<close>

text \<open>
  The nodes of \<open>golang.org/x/net/html\<close>. The links \<open>FirstChild\<close> and \<open>NextSibling\<close>
  are the list \<open>Children\<close>. \<open>ParseFragment\<close> returns detached nodes, \<open>ns[0]\<close> has
  neither a parent nor a sibling, so the loop of ParseHTML walks the tree below
  \<open>ns[0]\<close> in pre-order and appends an \<open>EndNode\<close> when it leaves an element.
\<close>

datatype html_NodeType =
    html_ErrorNode | html_TextNode | html_DocumentNode | html_ElementNode
  | html_CommentNode | html_DoctypeNode | html_RawNode

record html_Attribute =
  ANamespace :: string
  Key :: string
  Val :: string

datatype html_Node =
  html_Node (Type: html_NodeType) (Data: string) (Namespace: string)
    (Attr: "html_Attribute list") (Children: "html_Node list")

definition html_open :: "html_Node \<Rightarrow> Node list \<times> string \<Rightarrow> Node list \<times> string" where
  "html_open n acc =
     (case acc of (ns, text) \<Rightarrow>
        if Type n = html_ElementNode then
          ((ns @ [(zero_node StartNode)\<lparr>name := \<lparr>Space = Namespace n, Local = Data n\<rparr>\<rparr>])
             @ map (\<lambda>a. (zero_node AttrNode)
                     \<lparr>name := \<lparr>Space = ANamespace a, Local = Key a\<rparr>, attr := Val a\<rparr>) (Attr n),
           text)
        else if Type n = html_TextNode then
          (let (text1, sl) = add_text text (Data n)
           in (ns @ [(zero_node TextNode)\<lparr>text' := sl\<rparr>], text1))
        else if Type n = html_CommentNode then
          (let (text1, sl) = add_text text (Data n)
           in (ns @ [(zero_node CommentNode)\<lparr>text' := sl\<rparr>], text1))
        else (ns, text))"

fun html_walk :: "html_Node \<Rightarrow> Node list \<times> string \<Rightarrow> Node list \<times> string"
  and html_walk_list :: "html_Node list \<Rightarrow> Node list \<times> string \<Rightarrow> Node list \<times> string" where
  "html_walk (html_Node ty d sp as cs) acc =
     (case html_walk_list cs (html_open (html_Node ty d sp as cs) acc) of (ns, text) \<Rightarrow>
        if ty = html_ElementNode then (ns @ [zero_node EndNode], text) else (ns, text))"
| "html_walk_list [] acc = acc"
| "html_walk_list (c # cs) acc = html_walk_list cs (html_walk c acc)"

text \<open>
  The argument is the result of \<open>html.ParseFragment(r, nil)\<close>; \<open>ns[0]\<close> of an empty
  slice is a panic.
\<close>

definition ParseHTML :: "error + html_Node list \<Rightarrow> error + (nat \<times> bstate)" where
  "ParseHTML r =
     (case r of
        Inl e \<Rightarrow> Inl e
      | Inr hs \<Rightarrow>
          (case hs of
             [] \<Rightarrow> Inl Panic
           | n # _ \<Rightarrow>
               (case html_walk n ([zero_node StartNode], []) of (ns, text) \<Rightarrow>
                  build (ns @ [zero_node EndNode]))))"

section \<open>Example documents\<close>

definition local_name :: "string \<Rightarrow> Name" where
  "local_name l = \<lparr>Space = [], Local = l\<rparr>"

text \<open>\<open><a><!--abc--></a>\<close>\<close>

definition doc_comment :: "(error + token) list" where
  "doc_comment =
     [Inr (StartElement (local_name ''a'') []), Inr (Comment ''abc''),
      Inr (EndElement (local_name ''a''))]"

text \<open>\<open><a>x<b>y</b></a>\<close>\<close>

definition doc_nested :: "(error + token) list" where
  "doc_nested =
     [Inr (StartElement (local_name ''a'') []), Inr (CharData ''x''),
      Inr (StartElement (local_name ''b'') []), Inr (CharData ''y''),
      Inr (EndElement (local_name ''b'')), Inr (EndElement (local_name ''a''))]"

text \<open>
  \<open><a>\<^verbatim>\<open>e^\<close></a>\<close>: the text is the letter e with a circumflex, U+00EA, in UTF-8 the bytes
  \<open>0xC3 0xAA\<close>. The letter e with an acute accent, U+00E9, is \<open>0xC3 0xA9\<close>.
\<close>

definition doc_utf8 :: "(error + token) list" where
  "doc_utf8 =
     [Inr (StartElement (local_name ''a'') []), Inr (CharData [CHR 0xC3, CHR 0xAA]),
      Inr (EndElement (local_name ''a''))]"



text \<open>\<open><a x="1"><b>he</b>llo<!--c--></a>\<close>\<close>

definition doc_hello :: "(error + token) list" where
  "doc_hello =
     [Inr (StartElement (local_name ''a'') [(local_name ''x'', ''1'')]),
      Inr (StartElement (local_name ''b'') []), Inr (CharData ''he''),
      Inr (EndElement (local_name ''b'')), Inr (CharData ''llo''), Inr (Comment ''c''),
      Inr (EndElement (local_name ''a''))]"

text \<open>The tokens of \<open><a x="1"><b>he</b>llo<!--c--></a>\<close>.\<close>

definition hello_tokens :: "token list" where
  "hello_tokens =
     [StartElement (local_name ''a'') [(local_name ''x'', ''1'')],
      StartElement (local_name ''b'') [], CharData ''he'',
      EndElement (local_name ''b''), CharData ''llo'', Comment ''c'',
      EndElement (local_name ''a'')]"

text \<open>The tokens of \<open><a>ab<!--x-->cd</a>\<close>: two text fragments with a comment between them.\<close>

definition straddle_tokens :: "token list" where
  "straddle_tokens =
     [StartElement (local_name ''a'') [], CharData ''ab'', Comment ''x'', CharData ''cd'',
      EndElement (local_name ''a'')]"

section \<open>The invariant of the builder\<close>

text \<open>
  The definitions below are not code of the repository: they state what holds of the
  builder's state before it processes position \<open>p\<close> of a node store that was \<open>ns0\<close>
  at the start, and they name the notions the claims speak of.

  \<open>opened\<close> are the kinds of the first case of the switch, \<open>listed\<close> the kinds a
  children list takes. \<open>kids ns n is\<close> are the positions among \<open>is\<close> whose parent is
  \<open>n\<close> and whose kind is listed.
\<close>

definition opened :: "NodeKind \<Rightarrow> bool" where
  "opened k = (k \<in> {StartNode, AttrNode, TextNode, CommentNode, ProcInstNode})"

definition listed :: "NodeKind \<Rightarrow> bool" where
  "listed k = (k \<in> {StartNode, TextNode, CommentNode, ProcInstNode})"

definition kids :: "Node list \<Rightarrow> nat \<Rightarrow> nat list \<Rightarrow> nat list" where
  "kids ns n is = filter (\<lambda>i. up (ns ! i) = Some n \<and> listed (kind (ns ! i))) is"

text \<open>
  A store as both parsers hand it to the builder: it starts with a \<open>StartNode\<close>, and no
  node has any of the fields that the builder fills.
\<close>

definition blank :: "Node \<Rightarrow> bool" where
  "blank m = (nodes_len m = 0 \<and> pos m = 0 \<and> end' m = 0 \<and> up m = None \<and> down m = DOwn [])"

definition fresh :: "Node list \<Rightarrow> bool" where
  "fresh ns0 =
     (ns0 \<noteq> [] \<and> kind (ns0 ! 0) = StartNode
      \<and> (\<forall>i < length ns0. nodes_len (ns0 ! i) = 0 \<and> pos (ns0 ! i) = 0 \<and> end' (ns0 ! i) = 0
            \<and> up (ns0 ! i) = None \<and> down (ns0 ! i) = DOwn []))"

text \<open>
  The shape of the state: the lengths, the fields the builder never writes, the nodes
  it has not reached, and the stack, strictly increasing positions of elements before
  \<open>p\<close>.
\<close>

definition inv_shape :: "Node list \<Rightarrow> nat \<Rightarrow> bstate \<Rightarrow> bool" where
  "inv_shape ns0 p st =
     (length (nodes st) = length ns0 \<and> length (downs st) = length ns0 \<and> p \<le> length ns0
      \<and> (\<forall>i < length ns0. kind (nodes st ! i) = kind (ns0 ! i) \<and> name (nodes st ! i) = name (ns0 ! i)
            \<and> attr (nodes st ! i) = attr (ns0 ! i) \<and> text' (nodes st ! i) = text' (ns0 ! i))
      \<and> (\<forall>i < length ns0. p \<le> i \<or> \<not> opened (kind (ns0 ! i)) \<longrightarrow> nodes st ! i = ns0 ! i)
      \<and> sorted_wrt (<) (stack st)
      \<and> (\<forall>s \<in> set (stack st). s < p \<and> kind (ns0 ! s) = StartNode))"

text \<open>
  The fields of a node at \<open>i\<close> that has been visited: its position, its range once it
  is closed, and its parent \<open>u\<close>, an element before it, open as long as the node is,
  and with a range that ends no earlier once it is closed.
\<close>

definition node_ok :: "Node list \<Rightarrow> nat \<Rightarrow> bstate \<Rightarrow> nat \<Rightarrow> bool" where
  "node_ok ns0 p st i =
     (pos (nodes st ! i) = i \<and> nodes_len (nodes st ! i) = length ns0
      \<and> (kind (ns0 ! i) \<noteq> StartNode \<longrightarrow> end' (nodes st ! i) = i + 1)
      \<and> (kind (ns0 ! i) = StartNode \<longrightarrow> i \<notin> set (stack st) \<longrightarrow>
            i < end' (nodes st ! i) \<and> end' (nodes st ! i) < p)
      \<and> (case up (nodes st ! i) of
            None \<Rightarrow> i = 0
          | Some u \<Rightarrow> u < i \<and> kind (ns0 ! u) = StartNode
              \<and> (i \<in> set (stack st) \<longrightarrow> u \<in> set (stack st))
              \<and> (u \<notin> set (stack st) \<longrightarrow> end' (nodes st ! i) \<le> end' (nodes st ! u))))"

definition inv_fields :: "Node list \<Rightarrow> nat \<Rightarrow> bstate \<Rightarrow> bool" where
  "inv_fields ns0 p st = (\<forall>i < p. opened (kind (ns0 ! i)) \<longrightarrow> node_ok ns0 p st i)"

text \<open>
  Two visited nodes with the same parent: the earlier one is closed and its range ends
  at or before the later one.
\<close>

definition inv_sibl :: "Node list \<Rightarrow> nat \<Rightarrow> bstate \<Rightarrow> bool" where
  "inv_sibl ns0 p st =
     (\<forall>i j. i < j \<longrightarrow> j < p \<longrightarrow> opened (kind (ns0 ! i)) \<longrightarrow> opened (kind (ns0 ! j)) \<longrightarrow>
        up (nodes st ! i) = up (nodes st ! j) \<longrightarrow>
        i \<notin> set (stack st) \<and> end' (nodes st ! i) \<le> j)"

text \<open>
  The shared array \<open>downs\<close>: a closed element owns the window of \<open>downs\<close> that
  holds its children, below \<open>downCount\<close>; the visited nodes that still wait for their
  parent to close (\<open>pending\<close>) bound what will be written.
\<close>

definition pending :: "bstate \<Rightarrow> nat \<Rightarrow> nat list" where
  "pending st p =
     filter (\<lambda>i. listed (kind (nodes st ! i)) \<and> (\<exists>u \<in> set (stack st). up (nodes st ! i) = Some u))
       [0 ..< p]"

definition inv_pool :: "Node list \<Rightarrow> nat \<Rightarrow> bstate \<Rightarrow> bool" where
  "inv_pool ns0 p st =
     (downCount st + length (pending st p) \<le> p
      \<and> (\<forall>n < p. kind (ns0 ! n) = StartNode \<longrightarrow> n \<notin> set (stack st) \<longrightarrow>
            (\<exists>off len. down (nodes st ! n) = DPool off len \<and> off + len \<le> downCount st
               \<and> take len (drop off (downs st)) = map Some (kids (nodes st) n [0 ..< p]))))"

definition head_ok :: "nat \<Rightarrow> bstate \<Rightarrow> bool" where
  "head_ok p st = (0 < p \<longrightarrow> stack st \<noteq> [] \<and> hd (stack st) = 0)"

definition inv :: "Node list \<Rightarrow> nat \<Rightarrow> bstate \<Rightarrow> bool" where
  "inv ns0 p st =
     (inv_shape ns0 p st \<and> inv_fields ns0 p st \<and> inv_sibl ns0 p st \<and> inv_pool ns0 p st)"

text \<open>
  What \<open>case EndNode\<close> at position \<open>p\<close> does to a state, as a relation between
  the states before and after.
\<close>

definition end_effect :: "nat \<Rightarrow> bstate \<Rightarrow> bstate \<Rightarrow> bool" where
  "end_effect p st st' =
     (let n = last (stack st); ks = kids (nodes st) n [0 ..< p] in
        nodes st' = (nodes st)[n := (nodes st ! n)\<lparr>end' := p, down := DPool (downCount st) (length ks)\<rparr>]
        \<and> stack st' = butlast (stack st)
        \<and> downCount st' = downCount st + length ks
        \<and> length (downs st') = length (downs st)
        \<and> (\<forall>k < downCount st. downs st' ! k = downs st ! k)
        \<and> (\<forall>k < length ks. downs st' ! (downCount st + k) = Some (ks ! k)))"

text \<open>
  \<open>close_pos d p ks\<close> follows only the depth of the stack through the kinds \<open>ks\<close>,
  which start at position \<open>p\<close> with \<open>d\<close> open elements: it is the position of the first
  \<open>EndNode\<close> that finds exactly one element open, if there is one.
\<close>

fun close_pos :: "nat \<Rightarrow> nat \<Rightarrow> NodeKind list \<Rightarrow> nat option" where
  "close_pos d p [] = None"
| "close_pos d p (k # ks) =
     (if k = StartNode then close_pos (Suc d) (Suc p) ks
      else if k = EndNode then (if d = 1 then Some p else close_pos (d - 1) (Suc p) ks)
      else close_pos d (Suc p) ks)"

text \<open>
  \<open>built ns0 q st\<close>: \<open>st\<close> is the state in which the builder returns for the store
  \<open>ns0\<close>, at the \<open>EndNode\<close> at position \<open>q\<close>.
\<close>

definition built :: "Node list \<Rightarrow> nat \<Rightarrow> bstate \<Rightarrow> bool" where
  "built ns0 q st = (fresh ns0 \<and> q < length ns0 \<and> inv ns0 (Suc q) st \<and> stack st = []
       \<and> kind (ns0 ! q) = EndNode \<and> end' (nodes st ! 0) = q
       \<and> close_pos 0 0 (map kind ns0) = Some q)"

text \<open>
  The nodes one token appends, without the text buffer, and the nodes of a list of
  tokens. \<open>nested d ts\<close>: the tokens \<open>ts\<close> close exactly the \<open>d\<close> elements that are
  open before them, and never more than are open: what \<open>Token\<close> of \<open>encoding/xml\<close>
  guarantees of the tokens it returns up to the end of the input, for \<open>d = 0\<close>.
\<close>

fun token_events :: "token \<Rightarrow> Node list" where
  "token_events (EndElement nm) = [zero_node EndNode]"
| "token_events (StartElement nm as) =
     (zero_node StartNode)\<lparr>name := nm\<rparr>
       # map (\<lambda>(an, av). (zero_node AttrNode)\<lparr>name := an, attr := av\<rparr>) as"
| "token_events (CharData t) = [(zero_node TextNode)\<lparr>text' := t\<rparr>]"
| "token_events (Comment t) = [(zero_node CommentNode)\<lparr>text' := t\<rparr>]"
| "token_events (ProcInst target inst) =
     [(zero_node ProcInstNode)\<lparr>name := \<lparr>Space = [], Local = target\<rparr>, text' := inst\<rparr>]"
| "token_events (Directive t) = []"

definition events :: "token list \<Rightarrow> Node list" where
  "events ts = concat (map token_events ts)"

fun nested :: "nat \<Rightarrow> token list \<Rightarrow> bool" where
  "nested d [] = (d = 0)"
| "nested d (StartElement nm as # ts) = nested (Suc d) ts"
| "nested d (EndElement nm # ts) = (0 < d \<and> nested (d - 1) ts)"
| "nested d (t # ts) = nested d ts"

text \<open>
  \<open>descendant ns a c\<close>: following the \<open>up\<close> pointers from the node at \<open>c\<close> leads to
  the node at \<open>a\<close>.
\<close>

inductive descendant :: "Node list \<Rightarrow> nat \<Rightarrow> nat \<Rightarrow> bool" for ns :: "Node list" where
  child: "d < length ns \<Longrightarrow> up (ns ! d) = Some a \<Longrightarrow> descendant ns a d"
| below: "d < length ns \<Longrightarrow> up (ns ! d) = Some u \<Longrightarrow> descendant ns a u \<Longrightarrow> descendant ns a d"

text \<open>
  The bytes a token contributes to the text of the document, and the text of the
  \<open>TextNode\<close> entries of a store at the positions \<open>is\<close>, in that order.
\<close>

fun char_data :: "token \<Rightarrow> string" where
  "char_data (CharData t) = t"
| "char_data t = []"

definition frag_text :: "Node list \<Rightarrow> nat list \<Rightarrow> string" where
  "frag_text ns is =
     concat (map (\<lambda>i. text' (ns ! i)) (filter (\<lambda>i. kind (ns ! i) = TextNode) is))"

section \<open>Properties of the matchers at concrete nodes\<close>

text \<open>
  C9: \<open>contains("")\<close> and \<open>startsWith("")\<close> return true for every node of every kind,
  whatever the node store holds.
\<close>

theorem empty_candidate_matches:
  "contains ns n [] = Some True \<and> startsWith ns n [] = Some True"
  by (simp add: contains_def startsWith_def)

text \<open>
  C1 (the code at a failing input): in \<open><a><!--abc--></a>\<close> the comment is the node at
  index 2. Its string value is \<open>abc\<close>, which contains \<open>b\<close>, but \<open>contains\<close> only looks at
  nodes of kind \<open>TextNode\<close> in the range of the node and returns false.
\<close>

theorem contains_misses_comment_text:
  "case ParseDecoder doc_comment of
     Inl e \<Rightarrow> False
   | Inr (r, st) \<Rightarrow>
       kind (nodes st ! 2) = CommentNode
       \<and> Bytes (nodes st) (nodes st ! 2) = Some ''abc''
       \<and> Contains ''abc'' ''b''
       \<and> contains (nodes st) (nodes st ! 2) ''b'' = Some False"
  by code_simp

text \<open>
  C2 (the code at two failing inputs): in \<open><a>x<b>y</b></a>\<close> the element \<open>a\<close> is the node
  at index 1 and has the string value \<open>xy\<close>. At the mismatch of \<open>x\<close> with \<open>y\<close> the
  \<open>break\<close> leaves the loop over the fragment only, the next fragment \<open>y\<close> is compared
  with the same position of the candidate, and \<open>startsWith("y")\<close> returns true. For the
  comment of \<open><a><!--abc--></a>\<close>, whose string value is \<open>abc\<close>, \<open>startsWith("a")\<close>
  returns false.
\<close>

theorem startsWith_resumes_after_mismatch:
  "(case ParseDecoder doc_nested of
      Inl e \<Rightarrow> False
    | Inr (r, st) \<Rightarrow>
        kind (nodes st ! 1) = StartNode
        \<and> Bytes (nodes st) (nodes st ! 1) = Some ''xy''
        \<and> \<not> HasPrefix ''xy'' ''y''
        \<and> startsWith (nodes st) (nodes st ! 1) ''y'' = Some True)
   \<and> (case ParseDecoder doc_comment of
      Inl e \<Rightarrow> False
    | Inr (r, st) \<Rightarrow>
        Bytes (nodes st) (nodes st ! 2) = Some ''abc''
        \<and> HasPrefix ''abc'' ''a''
        \<and> startsWith (nodes st) (nodes st ! 2) ''a'' = Some False)"
  by code_simp

text \<open>
  C4 (the code at a failing input): in \<open>doc_utf8\<close> the text node at index 2 has the
  string value \<open>0xC3 0xAA\<close>. For the candidate \<open>0xC3 0xA9\<close> the lengths agree, the
  range over the candidate yields the offset 0 only, the second bytes are never
  compared, and \<open>equals\<close> returns true for two different strings.
\<close>

theorem equals_skips_continuation_bytes:
  "case ParseDecoder doc_utf8 of
     Inl e \<Rightarrow> False
   | Inr (r, st) \<Rightarrow>
       kind (nodes st ! 2) = TextNode
       \<and> Bytes (nodes st) (nodes st ! 2) = Some [CHR 0xC3, CHR 0xAA]
       \<and> [CHR 0xC3, CHR 0xAA] \<noteq> [CHR 0xC3, CHR 0xA9]
       \<and> range_string [CHR 0xC3, CHR 0xA9] 0 = [0]
       \<and> equals (nodes st) (nodes st ! 2) [CHR 0xC3, CHR 0xA9] = Some True"
  by code_simp

section \<open>The builder preserves its invariant\<close>

subsection \<open>The effect of one step\<close>

lemma step_open_eq:
  assumes "p < length (nodes st)"
  shows "step_open p st =
     st\<lparr>nodes := (nodes st)[p := (nodes st ! p)
              \<lparr>nodes_len := length (nodes st), pos := p,
               up := (if stack st = [] then up (nodes st ! p) else Some (last (stack st))),
               end' := (if kind (nodes st ! p) = StartNode then end' (nodes st ! p) else p + 1)\<rparr>],
        stack := (if kind (nodes st ! p) = StartNode then stack st @ [p] else stack st)\<rparr>"
  using assms by (simp add: step_open_def set_node_def Let_def)

lemma kids_down_update [simp]:
  "kids (ns[n := (ns ! n)\<lparr>down := d\<rparr>]) m is = kids ns m is"
proof -
  have "up ((ns[n := (ns ! n)\<lparr>down := d\<rparr>]) ! i) = up (ns ! i)
      \<and> kind ((ns[n := (ns ! n)\<lparr>down := d\<rparr>]) ! i) = kind (ns ! i)" for i
    by (cases "n < length ns") (simp_all add: nth_list_update not_less list_update_beyond)
  then show ?thesis by (simp add: kids_def)
qed

lemma collect_effect:
  assumes "n < length (nodes st)"
    and "down (nodes st ! n) = DPool off len"
    and "off + len = downCount st"
    and "downCount st + length (kids (nodes st) n is) \<le> length (downs st)"
  shows "nodes (collect n is st) =
           (nodes st)[n := (nodes st ! n)\<lparr>down := DPool off (len + length (kids (nodes st) n is))\<rparr>]
       \<and> stack (collect n is st) = stack st
       \<and> downCount (collect n is st) = downCount st + length (kids (nodes st) n is)
       \<and> length (downs (collect n is st)) = length (downs st)
       \<and> (\<forall>k < downCount st. downs (collect n is st) ! k = downs st ! k)
       \<and> (\<forall>k < length (kids (nodes st) n is).
             downs (collect n is st) ! (downCount st + k) = Some (kids (nodes st) n is ! k))"
  using assms
proof (induction "is" arbitrary: st len)
  case Nil
  then show ?case by (simp add: kids_def list_update_same_conv[THEN iffD2])
next
  case (Cons i "is")
  show ?case
  proof (cases "up (nodes st ! i) = Some n \<and> listed (kind (nodes st ! i))")
    case False
    then have k: "kids (nodes st) n (i # is) = kids (nodes st) n is"
      by (auto simp: kids_def)
    have c: "collect n (i # is) st = collect n is st"
      using False by (auto simp: listed_def)
    show ?thesis
      unfolding k c using Cons.IH[of st len] Cons.prems unfolding k by simp
  next
    case True
    then have k: "kids (nodes st) n (i # is) = i # kids (nodes st) n is"
      by (auto simp: kids_def)
    define st1 where "st1 = (append_down n i st)\<lparr>downCount := downCount st + 1\<rparr>"
    have cap: "off + len < length (downs st)"
      using Cons.prems k by simp
    have st1: "st1 = st\<lparr>nodes := (nodes st)[n := (nodes st ! n)\<lparr>down := DPool off (len + 1)\<rparr>],
                        downs := (downs st)[off + len := Some i],
                        downCount := downCount st + 1\<rparr>"
      using Cons.prems(1,2) cap by (simp add: st1_def append_down_def set_node_def)
    have c: "collect n (i # is) st = collect n is st1"
      using True by (auto simp: listed_def st1_def)
    have k1: "kids (nodes st1) n is = kids (nodes st) n is"
      by (simp add: st1)
    have p1: "n < length (nodes st1)" "down (nodes st1 ! n) = DPool off (len + 1)"
      "off + (len + 1) = downCount st1"
      "downCount st1 + length (kids (nodes st1) n is) \<le> length (downs st1)"
      using Cons.prems k by (simp_all add: st1 k1)
    note ih = Cons.IH[OF p1, unfolded k1]
    have n1: "nodes (collect n is st1) =
       (nodes st)[n := (nodes st ! n)\<lparr>down := DPool off (len + length (kids (nodes st) n (i # is)))\<rparr>]"
      using ih Cons.prems(1) by (simp add: st1 k)
    have d0: "\<forall>k<downCount st. downs (collect n is st1) ! k = downs st ! k"
      using ih Cons.prems(3) by (simp add: st1)
    have d1: "downs (collect n is st1) ! (downCount st) = Some i"
      using ih Cons.prems(3) cap by (simp add: st1)
    have d2: "\<forall>k < length (kids (nodes st) n is).
             downs (collect n is st1) ! (downCount st + Suc k) = Some (kids (nodes st) n is ! k)"
      using ih by (simp add: st1)
    have d3: "\<forall>k < length (kids (nodes st) n (i # is)).
             downs (collect n is st1) ! (downCount st + k) = Some (kids (nodes st) n (i # is) ! k)"
      unfolding k
    proof (intro allI impI)
      fix k assume "k < length (i # kids (nodes st) n is)"
      then show "downs (collect n is st1) ! (downCount st + k) = Some ((i # kids (nodes st) n is) ! k)"
        using d1 d2 by (cases k) simp_all
    qed
    show ?thesis
      unfolding c using n1 d0 d3 ih by (simp add: st1 k)
  qed
qed

subsection \<open>The step for a node that is not an end marker\<close>

lemma sorted_last_max:
  assumes "sorted_wrt (<) (xs :: nat list)" "xs \<noteq> []" "x \<in> set (butlast xs)"
  shows "x < last xs"
proof -
  have "xs = butlast xs @ [last xs]" using assms(2) by simp
  then have "sorted_wrt (<) (butlast xs @ [last xs])" using assms(1) by simp
  then show ?thesis using assms(3) by (simp add: sorted_wrt_append)
qed

lemma sorted_butlast:
  assumes "sorted_wrt (<) (xs :: nat list)"
  shows "sorted_wrt (<) (butlast xs)"
proof (cases "xs = []")
  case False
  then have "xs = butlast xs @ [last xs]" by simp
  then have "sorted_wrt (<) (butlast xs @ [last xs])" using assms by simp
  then show ?thesis by (simp add: sorted_wrt_append)
qed simp

lemma last_notin_butlast:
  assumes "sorted_wrt (<) (xs :: nat list)" "xs \<noteq> []"
  shows "last xs \<notin> set (butlast xs)"
  using sorted_last_max[OF assms] by blast

lemma stack_set_butlast:
  assumes "xs \<noteq> []"
  shows "set xs = insert (last xs) (set (butlast xs))"
proof -
  have "xs = butlast xs @ [last xs]" using assms by simp
  then have "set xs = set (butlast xs @ [last xs])" by simp
  then show ?thesis by simp
qed

lemma shape_open:
  assumes "inv_shape ns0 p st" "p < length ns0" "opened (kind (ns0 ! p))"
  shows "inv_shape ns0 (Suc p) (step_open p st)"
proof -
  have len: "p < length (nodes st)" using assms by (simp add: inv_shape_def)
  have kp: "kind (nodes st ! p) = kind (ns0 ! p)" using assms by (simp add: inv_shape_def)
  note eq = step_open_eq[OF len]
  have srt: "sorted_wrt (<) (stack st @ [p])"
    using assms(1) by (auto simp: inv_shape_def sorted_wrt_append)
  show ?thesis
    unfolding inv_shape_def eq using assms srt
    by (auto simp: inv_shape_def nth_list_update less_Suc_eq)
qed

lemma sorted_le_last:
  assumes "sorted_wrt (<) (xs :: nat list)" "x \<in> set xs"
  shows "x \<le> last xs"
proof -
  have ne: "xs \<noteq> []" using assms(2) by auto
  have "x = last xs \<or> x \<in> set (butlast xs)"
    using assms(2) stack_set_butlast[OF ne] by auto
  then show ?thesis using sorted_last_max[OF assms(1) ne, of x] by (auto intro: less_imp_le)
qed

lemma step_open_facts:
  assumes "p < length (nodes st)"
  shows "length (nodes (step_open p st)) = length (nodes st)"
    and "downs (step_open p st) = downs st"
    and "downCount (step_open p st) = downCount st"
    and "\<And>i. i \<noteq> p \<Longrightarrow> nodes (step_open p st) ! i = nodes st ! i"
    and "\<And>x. x \<noteq> p \<Longrightarrow> (x \<in> set (stack (step_open p st))) = (x \<in> set (stack st))"
    and "(p \<in> set (stack (step_open p st))) = (kind (nodes st ! p) = StartNode \<or> p \<in> set (stack st))"
    and "kind (nodes (step_open p st) ! p) = kind (nodes st ! p)"
    and "pos (nodes (step_open p st) ! p) = p"
    and "nodes_len (nodes (step_open p st) ! p) = length (nodes st)"
    and "up (nodes (step_open p st) ! p) =
           (if stack st = [] then up (nodes st ! p) else Some (last (stack st)))"
    and "kind (nodes st ! p) \<noteq> StartNode \<Longrightarrow> end' (nodes (step_open p st) ! p) = p + 1"
  using assms by (simp_all add: step_open_eq)

lemma fields_open:
  assumes sh: "inv_shape ns0 p st" and fl: "inv_fields ns0 p st" and hd: "head_ok p st"
    and fr: "fresh ns0" and p: "p < length ns0" and op: "opened (kind (ns0 ! p))"
  shows "inv_fields ns0 (Suc p) (step_open p st)"
proof -
  have len: "p < length (nodes st)" using sh p by (simp add: inv_shape_def)
  have ln: "length (nodes st) = length ns0" using sh by (simp add: inv_shape_def)
  have kp: "kind (nodes st ! p) = kind (ns0 ! p)" using sh p by (simp add: inv_shape_def)
  have np: "nodes st ! p = ns0 ! p" using sh p by (simp add: inv_shape_def)
  have upp: "up (nodes st ! p) = None" using fr p np by (simp add: fresh_def)
  have stk: "\<forall>s \<in> set (stack st). s < p \<and> kind (ns0 ! s) = StartNode"
    using sh by (simp add: inv_shape_def)
  note facts = step_open_facts[OF len]
  define st' where "st' = step_open p st"
  note f' = facts[folded st'_def]
  have goal: "node_ok ns0 (Suc p) st' i"
    if i: "i < Suc p" and oi: "opened (kind (ns0 ! i))" for i
  proof (cases "i = p")
    case False
    then have ip: "i < p" "i \<noteq> p" using i by simp_all
    have f: "node_ok ns0 p st i"
      using fl ip oi unfolding inv_fields_def by blast
    show ?thesis
    proof (cases "up (nodes st ! i)")
      case None
      then show ?thesis using f ip unfolding node_ok_def by (auto simp: f'(4,5))
    next
      case (Some u)
      then have "u \<noteq> p" using f ip unfolding node_ok_def by auto
      then show ?thesis using f ip Some unfolding node_ok_def by (auto simp: f'(4,5))
    qed
  next
    case True
    have a: "pos (nodes st' ! p) = p" "nodes_len (nodes st' ! p) = length ns0"
        "kind (ns0 ! p) \<noteq> StartNode \<longrightarrow> end' (nodes st' ! p) = p + 1"
      using f'(8,9,11) kp ln by simp_all
    have b: "kind (ns0 ! p) = StartNode \<longrightarrow> p \<in> set (stack st')"
      using f'(6) kp by simp
    have c: "case up (nodes st' ! p) of
              None \<Rightarrow> p = 0
            | Some u \<Rightarrow> u < p \<and> kind (ns0 ! u) = StartNode
                \<and> (p \<in> set (stack st') \<longrightarrow> u \<in> set (stack st'))
                \<and> (u \<notin> set (stack st') \<longrightarrow> end' (nodes st' ! p) \<le> end' (nodes st' ! u))"
    proof (cases "stack st = []")
      case e: True
      then have "p = 0" using hd by (auto simp: head_ok_def)
      moreover have "up (nodes st' ! p) = None" using e upp f'(10) by simp
      ultimately show ?thesis by simp
    next
      case ne: False
      then have l: "last (stack st) \<in> set (stack st)" by simp
      then have l2: "last (stack st) < p \<and> kind (ns0 ! last (stack st)) = StartNode"
        using stk by blast
      then have "last (stack st) \<in> set (stack st')" using l f'(5)[of "last (stack st)"] by simp
      moreover have "up (nodes st' ! p) = Some (last (stack st))" using ne f'(10) by simp
      ultimately show ?thesis using l2 by simp
    qed
    show ?thesis unfolding node_ok_def True using a b c by simp
  qed
  show ?thesis
    unfolding inv_fields_def st'_def[symmetric]
  proof (intro allI impI)
    fix i assume "i < Suc p" "opened (kind (ns0 ! i))"
    then show "node_ok ns0 (Suc p) st' i" by (rule goal)
  qed
qed

lemma sibl_open:
  assumes sh: "inv_shape ns0 p st" and fl: "inv_fields ns0 p st" and sb: "inv_sibl ns0 p st"
    and hd: "head_ok p st" and p: "p < length ns0"
  shows "inv_sibl ns0 (Suc p) (step_open p st)"
proof -
  have len: "p < length (nodes st)" using sh p by (simp add: inv_shape_def)
  have srt: "sorted_wrt (<) (stack st)" using sh by (simp add: inv_shape_def)
  note facts = step_open_facts[OF len]
  define st' where "st' = step_open p st"
  note f' = facts[folded st'_def]
  have goal: "i \<notin> set (stack st') \<and> end' (nodes st' ! i) \<le> j"
    if ij: "i < j" and j: "j < Suc p" and oi: "opened (kind (ns0 ! i))"
      and oj: "opened (kind (ns0 ! j))" and u: "up (nodes st' ! i) = up (nodes st' ! j)" for i j
  proof -
    have ip: "i < p" "i \<noteq> p" using ij j by simp_all
    have ok: "node_ok ns0 p st i"
      using fl ip oi unfolding inv_fields_def by blast
    have f1: "kind (ns0 ! i) \<noteq> StartNode \<longrightarrow> end' (nodes st ! i) = i + 1"
      and f2: "kind (ns0 ! i) = StartNode \<longrightarrow> i \<notin> set (stack st) \<longrightarrow> end' (nodes st ! i) < p"
      and f3: "\<And>u. up (nodes st ! i) = Some u \<Longrightarrow> u < i"
      using ok unfolding node_ok_def by auto
    show ?thesis
    proof (cases "j = p")
      case False
      then have jp: "j < p" "j \<noteq> p" using j by simp_all
      have "up (nodes st ! i) = up (nodes st ! j)" using u ip jp by (simp add: f'(4))
      then have "i \<notin> set (stack st) \<and> end' (nodes st ! i) \<le> j"
        using sb ij jp oi oj unfolding inv_sibl_def by blast
      then show ?thesis using ip by (simp add: f'(4,5))
    next
      case True
      show ?thesis
      proof (cases "stack st = []")
        case e: True
        then have "p = 0" using hd by (auto simp: head_ok_def)
        then show ?thesis using ip by simp
      next
        case ne: False
        have "up (nodes st' ! p) = Some (last (stack st))"
          using ne f'(10) by simp
        then have ui: "up (nodes st ! i) = Some (last (stack st))"
          using u True ip by (simp add: f'(4))
        then have lt: "last (stack st) < i" using f3 by simp
        have ni: "i \<notin> set (stack st)"
          using sorted_le_last[OF srt, of i] lt by auto
        have "end' (nodes st ! i) \<le> p"
          using f1 f2 ni ip by (cases "kind (ns0 ! i) = StartNode") auto
        then show ?thesis using True ni ip by (simp add: f'(4,5))
      qed
    qed
  qed
  show ?thesis
    unfolding inv_sibl_def st'_def[symmetric]
  proof (intro allI impI)
    fix i j assume "i < j" "j < Suc p" "opened (kind (ns0 ! i))" "opened (kind (ns0 ! j))"
      "up (nodes st' ! i) = up (nodes st' ! j)"
    then show "i \<notin> set (stack st') \<and> end' (nodes st' ! i) \<le> j" by (rule goal)
  qed
qed

subsection \<open>The step for an end marker\<close>

lemma kids_cong:
  assumes "\<And>i. i \<in> set is \<Longrightarrow> up (ns ! i) = up (ns' ! i) \<and> kind (ns ! i) = kind (ns' ! i)"
  shows "kids ns n is = kids ns' n is"
  unfolding kids_def using assms by (intro filter_cong) auto

lemma up_lt:
  assumes sh: "inv_shape ns0 p st" and fl: "inv_fields ns0 p st" and fr: "fresh ns0"
    and i: "i < length ns0" and u: "up (nodes st ! i) = Some u"
  shows "u < i \<and> i < p \<and> opened (kind (ns0 ! i)) \<and> kind (ns0 ! u) = StartNode"
proof -
  have "\<not> (p \<le> i \<or> \<not> opened (kind (ns0 ! i)))"
  proof
    assume "p \<le> i \<or> \<not> opened (kind (ns0 ! i))"
    then have "nodes st ! i = ns0 ! i" using sh i unfolding inv_shape_def by blast
    then have "up (nodes st ! i) = None" using fr i by (simp add: fresh_def)
    then show False using u by simp
  qed
  then have ip: "i < p" "opened (kind (ns0 ! i))" by auto
  then have "node_ok ns0 p st i" using fl unfolding inv_fields_def by blast
  then show ?thesis using u ip unfolding node_ok_def by simp
qed

lemma kids_append:
  "kids ns n (xs @ ys) = kids ns n xs @ kids ns n ys"
  by (simp add: kids_def)

lemma kids_from:
  assumes sh: "inv_shape ns0 p st" and fl: "inv_fields ns0 p st" and fr: "fresh ns0"
    and n: "n < p" and p: "p \<le> length ns0"
  shows "kids (nodes st) n [Suc n ..< p] = kids (nodes st) n [0 ..< p]"
proof -
  have a: "[0 ..< p] = [0 ..< Suc n] @ [Suc n ..< p]"
    using upt_add_eq_append[of 0 "Suc n" "p - Suc n"] n by simp
  have b: "kids (nodes st) n [0 ..< Suc n] = []"
    unfolding kids_def
  proof (rule filter_False, rule ballI)
    fix i assume "i \<in> set [0 ..< Suc n]"
    then have i: "i \<le> n" by auto
    then have il: "i < length ns0" using n p by simp
    show "\<not> (up (nodes st ! i) = Some n \<and> listed (kind (nodes st ! i)))"
      using up_lt[OF sh fl fr il, of n] i by auto
  qed
  show ?thesis by (simp only: a kids_append b append_Nil)
qed

lemma length_filter_mono:
  assumes "\<And>x. x \<in> set xs \<Longrightarrow> P x \<Longrightarrow> Q x"
  shows "length (filter P xs) \<le> length (filter Q xs)"
  using assms by (induction xs) auto

lemma length_filter_split:
  assumes "\<And>x. x \<in> set xs \<Longrightarrow> Q x = (A x \<or> B x)" "\<And>x. x \<in> set xs \<Longrightarrow> \<not> (A x \<and> B x)"
  shows "length (filter Q xs) = length (filter A xs) + length (filter B xs)"
  using assms by (induction xs) auto

lemma kids_le_pending:
  assumes "n \<in> set (stack st)"
  shows "length (kids (nodes st) n [0 ..< p]) \<le> length (pending st p)"
  unfolding kids_def pending_def using assms by (intro length_filter_mono) auto

lemma step_end_effect:
  assumes sh: "inv_shape ns0 p st" and fl: "inv_fields ns0 p st" and pl: "inv_pool ns0 p st"
    and fr: "fresh ns0" and ne: "stack st \<noteq> []" and p: "p < length ns0"
  shows "\<exists>st'. step_end p st = Inr (if butlast (stack st) = [] then Some (last (stack st)) else None, st')
           \<and> end_effect p st st'"
proof -
  define n where "n = last (stack st)"
  define ks where "ks = kids (nodes st) n [0 ..< p]"
  have nin: "n \<in> set (stack st)" using ne by (simp add: n_def)
  then have np: "n < p" and kn: "kind (ns0 ! n) = StartNode"
    using sh unfolding inv_shape_def by blast+
  have ln: "length (nodes st) = length ns0" and ld: "length (downs st) = length ns0"
    using sh by (simp_all add: inv_shape_def)
  have nl: "n < length (nodes st)" using np p ln by simp
  have "node_ok ns0 p st n" using fl np kn unfolding inv_fields_def by (simp add: opened_def)
  then have posn: "pos (nodes st ! n) = n" by (simp add: node_ok_def)
  have bound: "downCount st + length ks \<le> p"
    using pl kids_le_pending[OF nin, of p] unfolding inv_pool_def ks_def by simp
  define st1 where "st1 = set_node n (\<lambda>m. m\<lparr>end' := p\<rparr>) st"
  define st2 where "st2 = st1\<lparr>stack := butlast (stack st1)\<rparr>"
  define st3 where "st3 = set_node n (\<lambda>m. m\<lparr>down := DPool (downCount st2) 0\<rparr>) st2"
  define st' where "st' = collect n [pos (nodes st3 ! n) + 1 ..< end' (nodes st3 ! n)] st3"
  have se0: "step_end p st =
      (if downCount st2 > length (downs st2) then Inl Panic
       else Inr (if length (stack st') = 0 then Some n else None, st'))"
    unfolding step_end_def Let_def st'_def st3_def st2_def st1_def n_def using ne by simp
  have n3: "nodes st3 = (nodes st)[n := (nodes st ! n)\<lparr>end' := p, down := DPool (downCount st) 0\<rparr>]"
    and s3: "stack st3 = butlast (stack st)" and d3: "downs st3 = downs st"
    and c3: "downCount st3 = downCount st" and c2: "downCount st2 = downCount st"
    and d2: "downs st2 = downs st"
    using nl by (simp_all add: st3_def st2_def st1_def set_node_def)
  have k3: "kids (nodes st3) n is = kids (nodes st) n is" for "is"
    using nl by (intro kids_cong) (simp add: n3 nth_list_update)
  have ks3: "kids (nodes st3) n [Suc n ..< p] = ks"
    unfolding k3 ks_def using kids_from[OF sh fl fr np] p by simp
  have rng: "[pos (nodes st3 ! n) + 1 ..< end' (nodes st3 ! n)] = [Suc n ..< p]"
    using nl posn by (simp add: n3)
  have c: "n < length (nodes st3)" "down (nodes st3 ! n) = DPool (downCount st) 0"
    "downCount st + 0 = downCount st3"
    "downCount st3 + length (kids (nodes st3) n [Suc n ..< p]) \<le> length (downs st3)"
    using nl bound p ld unfolding ks3 by (simp_all add: n3 c3 d3)
  note ce = collect_effect[OF c, unfolded ks3, folded rng, folded st'_def]
  have z: "(length (stack st') = 0) = (butlast (stack st) = [])"
    using ce by (simp only: length_0_conv s3)
  have "\<not> downCount st2 > length (downs st2)"
    using bound p ld by (simp add: c2 d2)
  then have se: "step_end p st = Inr (if butlast (stack st) = [] then Some n else None, st')"
    unfolding se0 z by simp
  have ee: "end_effect p st st'"
    unfolding end_effect_def Let_def n_def[symmetric] ks_def[symmetric]
    using ce nl by (simp add: n3 s3 c3 d3)
  show ?thesis using se ee unfolding n_def by blast
qed

lemma end_facts:
  assumes "end_effect p st st'" "last (stack st) < length (nodes st)"
  shows "length (nodes st') = length (nodes st)"
    and "\<And>i. i \<noteq> last (stack st) \<Longrightarrow> nodes st' ! i = nodes st ! i"
    and "\<And>i. kind (nodes st' ! i) = kind (nodes st ! i) \<and> name (nodes st' ! i) = name (nodes st ! i)
           \<and> attr (nodes st' ! i) = attr (nodes st ! i) \<and> text' (nodes st' ! i) = text' (nodes st ! i)
           \<and> pos (nodes st' ! i) = pos (nodes st ! i) \<and> nodes_len (nodes st' ! i) = nodes_len (nodes st ! i)
           \<and> up (nodes st' ! i) = up (nodes st ! i)"
    and "end' (nodes st' ! last (stack st)) = p"
    and "down (nodes st' ! last (stack st)) =
           DPool (downCount st) (length (kids (nodes st) (last (stack st)) [0 ..< p]))"
    and "stack st' = butlast (stack st)"
    and "downCount st' = downCount st + length (kids (nodes st) (last (stack st)) [0 ..< p])"
    and "length (downs st') = length (downs st)"
    and "\<And>k. k < downCount st \<Longrightarrow> downs st' ! k = downs st ! k"
    and "\<And>k. k < length (kids (nodes st) (last (stack st)) [0 ..< p]) \<Longrightarrow>
           downs st' ! (downCount st + k) = Some (kids (nodes st) (last (stack st)) [0 ..< p] ! k)"
proof -
  note e = assms(1)[unfolded end_effect_def Let_def]
  show "length (nodes st') = length (nodes st)" using e by simp
  show "\<And>i. i \<noteq> last (stack st) \<Longrightarrow> nodes st' ! i = nodes st ! i" using e by simp
  show "\<And>i. kind (nodes st' ! i) = kind (nodes st ! i) \<and> name (nodes st' ! i) = name (nodes st ! i)
           \<and> attr (nodes st' ! i) = attr (nodes st ! i) \<and> text' (nodes st' ! i) = text' (nodes st ! i)
           \<and> pos (nodes st' ! i) = pos (nodes st ! i) \<and> nodes_len (nodes st' ! i) = nodes_len (nodes st ! i)
           \<and> up (nodes st' ! i) = up (nodes st ! i)"
    using e assms(2) by (simp add: nth_list_update)
  show "end' (nodes st' ! last (stack st)) = p" using e assms(2) by simp
  show "down (nodes st' ! last (stack st)) =
           DPool (downCount st) (length (kids (nodes st) (last (stack st)) [0 ..< p]))"
    using e assms(2) by simp
  show "stack st' = butlast (stack st)" using e by simp
  show "downCount st' = downCount st + length (kids (nodes st) (last (stack st)) [0 ..< p])"
    using e by simp
  show "length (downs st') = length (downs st)" using e by simp
  show "\<And>k. k < downCount st \<Longrightarrow> downs st' ! k = downs st ! k" using e by simp
  show "\<And>k. k < length (kids (nodes st) (last (stack st)) [0 ..< p]) \<Longrightarrow>
           downs st' ! (downCount st + k) = Some (kids (nodes st) (last (stack st)) [0 ..< p] ! k)"
    using e by simp
qed

lemma shape_end:
  assumes sh: "inv_shape ns0 p st" and ee: "end_effect p st st'" and ne: "stack st \<noteq> []"
    and p: "p < length ns0"
  shows "inv_shape ns0 (Suc p) st'"
proof -
  define n where "n = last (stack st)"
  have nin: "n \<in> set (stack st)" using ne by (simp add: n_def)
  then have np: "n < p" and kn: "kind (ns0 ! n) = StartNode"
    using sh unfolding inv_shape_def by blast+
  have ln: "length (nodes st) = length ns0" using sh by (simp add: inv_shape_def)
  have nl: "last (stack st) < length (nodes st)" using np p ln by (simp add: n_def)
  note f = end_facts[OF ee nl, folded n_def]
  have srt: "sorted_wrt (<) (butlast (stack st))"
    using sh sorted_butlast by (simp add: inv_shape_def)
  have sub: "set (butlast (stack st)) \<subseteq> set (stack st)"
    by (meson in_set_butlastD subsetI)
  have a: "\<forall>i < length ns0. kind (nodes st' ! i) = kind (ns0 ! i) \<and> name (nodes st' ! i) = name (ns0 ! i)
            \<and> attr (nodes st' ! i) = attr (ns0 ! i) \<and> text' (nodes st' ! i) = text' (ns0 ! i)"
    using sh f(3) by (simp add: inv_shape_def)
  have b: "\<forall>i < length ns0. Suc p \<le> i \<or> \<not> opened (kind (ns0 ! i)) \<longrightarrow> nodes st' ! i = ns0 ! i"
  proof (intro allI impI)
    fix i assume i: "i < length ns0" and c: "Suc p \<le> i \<or> \<not> opened (kind (ns0 ! i))"
    then have "i \<noteq> n" using np kn by (auto simp: opened_def)
    moreover have "nodes st ! i = ns0 ! i" using sh i c unfolding inv_shape_def by auto
    ultimately show "nodes st' ! i = ns0 ! i" using f(2) by simp
  qed
  have c: "\<forall>s \<in> set (stack st'). s < Suc p \<and> kind (ns0 ! s) = StartNode"
    using sh sub f(6) unfolding inv_shape_def by (auto simp: less_Suc_eq)
  show ?thesis
    unfolding inv_shape_def using a b c srt f(1,6,8) sh p by (simp add: inv_shape_def)
qed

lemma fields_end:
  assumes sh: "inv_shape ns0 p st" and fl: "inv_fields ns0 p st"
    and ee: "end_effect p st st'" and ne: "stack st \<noteq> []"
    and p: "p < length ns0" and kp: "kind (ns0 ! p) = EndNode"
  shows "inv_fields ns0 (Suc p) st'"
proof -
  define n where "n = last (stack st)"
  have nin: "n \<in> set (stack st)" using ne by (simp add: n_def)
  then have np: "n < p" and kn: "kind (ns0 ! n) = StartNode"
    using sh unfolding inv_shape_def by blast+
  have ln: "length (nodes st) = length ns0" using sh by (simp add: inv_shape_def)
  have nl: "last (stack st) < length (nodes st)" using np p ln by (simp add: n_def)
  have srt: "sorted_wrt (<) (stack st)" using sh by (simp add: inv_shape_def)
  note f = end_facts[OF ee nl, folded n_def]
  have mem: "(x \<in> set (stack st')) = (x \<in> set (stack st) \<and> x \<noteq> n)" for x
    using stack_set_butlast[OF ne] last_notin_butlast[OF srt ne] f(6) by (auto simp: n_def)
  have above: "x \<notin> set (stack st)" if "n < x" for x
    using sorted_le_last[OF srt, of x] that by (auto simp: n_def)
  have goal: "node_ok ns0 (Suc p) st' i"
    if i: "i < Suc p" and oi: "opened (kind (ns0 ! i))" for i
  proof -
    have "i \<noteq> p" using oi kp by (auto simp: opened_def)
    then have ip: "i < p" using i by simp
    have ok: "node_ok ns0 p st i" using fl ip oi unfolding inv_fields_def by blast
    have e_old: "end' (nodes st ! i) \<le> p" if "i \<notin> set (stack st)"
      using ok that ip unfolding node_ok_def by (cases "kind (ns0 ! i) = StartNode") auto
    have a: "pos (nodes st' ! i) = i" "nodes_len (nodes st' ! i) = length ns0"
      using ok f(3) by (simp_all add: node_ok_def)
    have b: "kind (ns0 ! i) \<noteq> StartNode \<longrightarrow> end' (nodes st' ! i) = i + 1"
    proof
      assume k: "kind (ns0 ! i) \<noteq> StartNode"
      then have "i \<noteq> n" using kn by auto
      then have "nodes st' ! i = nodes st ! i" by (rule f(2))
      then show "end' (nodes st' ! i) = i + 1" using ok k unfolding node_ok_def by simp
    qed
    have c: "kind (ns0 ! i) = StartNode \<longrightarrow> i \<notin> set (stack st') \<longrightarrow>
            i < end' (nodes st' ! i) \<and> end' (nodes st' ! i) < Suc p"
    proof (cases "i = n")
      case True
      then show ?thesis using f(4) np by simp
    next
      case False
      then show ?thesis using ok f(2)[of i] mem[of i] unfolding node_ok_def by auto
    qed
    have d: "case up (nodes st' ! i) of
            None \<Rightarrow> i = 0
          | Some u \<Rightarrow> u < i \<and> kind (ns0 ! u) = StartNode
              \<and> (i \<in> set (stack st') \<longrightarrow> u \<in> set (stack st'))
              \<and> (u \<notin> set (stack st') \<longrightarrow> end' (nodes st' ! i) \<le> end' (nodes st' ! u))"
    proof (cases "up (nodes st ! i)")
      case None
      then show ?thesis using ok f(3)[of i] unfolding node_ok_def by simp
    next
      case (Some u)
      have u1: "u < i" "kind (ns0 ! u) = StartNode"
        and u2: "i \<in> set (stack st) \<longrightarrow> u \<in> set (stack st)"
        and u3: "u \<notin> set (stack st) \<longrightarrow> end' (nodes st ! i) \<le> end' (nodes st ! u)"
        using ok Some unfolding node_ok_def by simp_all
      have d1: "i \<in> set (stack st') \<longrightarrow> u \<in> set (stack st')"
      proof
        assume "i \<in> set (stack st')"
        then have "i \<in> set (stack st)" "i \<noteq> n" using mem by simp_all
        then have "u \<in> set (stack st)" "i \<le> n" using u2 sorted_le_last[OF srt, of i] by (auto simp: n_def)
        then show "u \<in> set (stack st')" using mem u1 by auto
      qed
      have d2: "u \<notin> set (stack st') \<longrightarrow> end' (nodes st' ! i) \<le> end' (nodes st' ! u)"
      proof
        assume "u \<notin> set (stack st')"
        then have "u \<notin> set (stack st) \<or> u = n" using mem by simp
        then show "end' (nodes st' ! i) \<le> end' (nodes st' ! u)"
        proof
          assume un: "u \<notin> set (stack st)"
          then have "u \<noteq> n" using nin by auto
          moreover have "i \<noteq> n" using un u2 nin by auto
          ultimately show ?thesis using u3 un f(2) by simp
        next
          assume un: "u = n"
          then have "n < i" using u1 by simp
          then have "i \<notin> set (stack st)" "i \<noteq> n" using above by simp_all
          then show ?thesis using e_old f(2)[of i] f(4) un by simp
        qed
      qed
      show ?thesis using Some f(3)[of i] u1 d1 d2 by simp
    qed
    show ?thesis unfolding node_ok_def using a b c d by simp
  qed
  show ?thesis
    unfolding inv_fields_def
  proof (intro allI impI)
    fix i assume "i < Suc p" "opened (kind (ns0 ! i))"
    then show "node_ok ns0 (Suc p) st' i" by (rule goal)
  qed
qed

lemma sibl_end:
  assumes sh: "inv_shape ns0 p st" and sb: "inv_sibl ns0 p st"
    and ee: "end_effect p st st'" and ne: "stack st \<noteq> []"
    and p: "p < length ns0" and kp: "kind (ns0 ! p) = EndNode"
  shows "inv_sibl ns0 (Suc p) st'"
proof -
  define n where "n = last (stack st)"
  have nin: "n \<in> set (stack st)" using ne by (simp add: n_def)
  then have np: "n < p" using sh unfolding inv_shape_def by blast
  have ln: "length (nodes st) = length ns0" using sh by (simp add: inv_shape_def)
  have nl: "last (stack st) < length (nodes st)" using np p ln by (simp add: n_def)
  note f = end_facts[OF ee nl, folded n_def]
  have sub: "x \<in> set (stack st') \<Longrightarrow> x \<in> set (stack st)" for x
    using f(6) by (simp add: in_set_butlastD)
  show ?thesis
    unfolding inv_sibl_def
  proof (intro allI impI)
    fix i j assume ij: "i < j" and j: "j < Suc p" and oi: "opened (kind (ns0 ! i))"
      and oj: "opened (kind (ns0 ! j))" and u: "up (nodes st' ! i) = up (nodes st' ! j)"
    have "j \<noteq> p" using oj kp by (auto simp: opened_def)
    then have jp: "j < p" using j by simp
    have "up (nodes st ! i) = up (nodes st ! j)" using u f(3) by simp
    then have o: "i \<notin> set (stack st) \<and> end' (nodes st ! i) \<le> j"
      using sb ij jp oi oj unfolding inv_sibl_def by blast
    then have "i \<noteq> n" using nin by auto
    then show "i \<notin> set (stack st') \<and> end' (nodes st' ! i) \<le> j"
      using o sub f(2)[of i] by auto
  qed
qed

lemma take_drop_cong:
  assumes "length xs = length ys" "\<And>k. k < off + len \<Longrightarrow> xs ! k = ys ! k"
  shows "take len (drop off xs) = take len (drop off ys)"
proof (rule nth_equalityI)
  show "length (take len (drop off xs)) = length (take len (drop off ys))"
    using assms(1) by simp
next
  fix i assume "i < length (take len (drop off xs))"
  then have "i < len" "off + i < length xs" by auto
  then show "take len (drop off xs) ! i = take len (drop off ys) ! i"
    using assms by simp
qed

lemma pool_open:
  assumes sh: "inv_shape ns0 p st" and fl: "inv_fields ns0 p st" and pl: "inv_pool ns0 p st"
    and fr: "fresh ns0" and p: "p < length ns0" and op: "opened (kind (ns0 ! p))"
  shows "inv_pool ns0 (Suc p) (step_open p st)"
proof -
  have len: "p < length (nodes st)" using sh p by (simp add: inv_shape_def)
  have kp: "kind (nodes st ! p) = kind (ns0 ! p)" using sh p by (simp add: inv_shape_def)
  have np: "nodes st ! p = ns0 ! p" using sh p by (simp add: inv_shape_def)
  have upp: "up (nodes st ! p) = None" using fr p np by (simp add: fresh_def)
  note facts = step_open_facts[OF len]
  define st' where "st' = step_open p st"
  note f' = facts[folded st'_def]
  have upl: "u < p" if "i < p" "up (nodes st ! i) = Some u" for i u
    using up_lt[OF sh fl fr _ that(2)] that(1) p by simp
  have q: "(\<exists>u \<in> set (stack st'). up (nodes st' ! i) = Some u)
         = (\<exists>u \<in> set (stack st). up (nodes st ! i) = Some u)" if "i < p" for i
  proof -
    have "nodes st' ! i = nodes st ! i" using that f'(4) by simp
    moreover have "(u \<in> set (stack st')) = (u \<in> set (stack st))"
      if "up (nodes st ! i) = Some u" for u
      using upl[OF \<open>i < p\<close> that] f'(5)[of u] by simp
    ultimately show ?thesis by auto
  qed
  have pend: "filter (\<lambda>i. listed (kind (nodes st' ! i)) \<and> (\<exists>u \<in> set (stack st'). up (nodes st' ! i) = Some u)) [0 ..< p]
      = pending st p"
    unfolding pending_def
  proof (rule filter_cong)
    fix x assume "x \<in> set [0 ..< p]"
    then have x: "x < p" "x \<noteq> p" by simp_all
    show "(listed (kind (nodes st' ! x)) \<and> (\<exists>u \<in> set (stack st'). up (nodes st' ! x) = Some u))
        = (listed (kind (nodes st ! x)) \<and> (\<exists>u \<in> set (stack st). up (nodes st ! x) = Some u))"
      using q[OF x(1)] f'(4)[OF x(2)] by simp
  qed simp
  have "length (pending st' (Suc p)) \<le> length (pending st p) + 1"
    unfolding pending_def[of st' "Suc p"] using pend by simp
  then have a: "downCount st' + length (pending st' (Suc p)) \<le> Suc p"
    using pl f'(3) unfolding inv_pool_def by simp
  have b: "\<exists>off len. down (nodes st' ! n) = DPool off len \<and> off + len \<le> downCount st'
               \<and> take len (drop off (downs st')) = map Some (kids (nodes st') n [0 ..< Suc p])"
    if n: "n < Suc p" and kn: "kind (ns0 ! n) = StartNode" and ns: "n \<notin> set (stack st')" for n
  proof -
    have "n \<noteq> p" using ns kn f'(6) kp by auto
    then have n1: "n < p" "n \<noteq> p" using n by simp_all
    then have n2: "n \<notin> set (stack st)" using ns f'(5) by simp
    obtain off len where o: "down (nodes st ! n) = DPool off len" "off + len \<le> downCount st"
        "take len (drop off (downs st)) = map Some (kids (nodes st) n [0 ..< p])"
      using pl n1 kn n2 unfolding inv_pool_def by blast
    have k1: "kids (nodes st') n [0 ..< p] = kids (nodes st) n [0 ..< p]"
      by (rule kids_cong) (simp add: f'(4))
    have "up (nodes st' ! p) \<noteq> Some n"
      using f'(10) upp n2 by (cases "stack st = []") auto
    then have k2: "kids (nodes st') n [0 ..< Suc p] = kids (nodes st) n [0 ..< p]"
      using k1 by (simp add: kids_def)
    show ?thesis using o n1 f'(2,3,4) k2 by simp
  qed
  show ?thesis
    unfolding inv_pool_def st'_def[symmetric] using a b by blast
qed

lemma pool_end:
  assumes sh: "inv_shape ns0 p st" and fl: "inv_fields ns0 p st" and pl: "inv_pool ns0 p st"
    and fr: "fresh ns0" and ee: "end_effect p st st'" and ne: "stack st \<noteq> []"
    and p: "p < length ns0" and kp: "kind (ns0 ! p) = EndNode"
  shows "inv_pool ns0 (Suc p) st'"
proof -
  define n where "n = last (stack st)"
  define ks where "ks = kids (nodes st) n [0 ..< p]"
  have nin: "n \<in> set (stack st)" using ne by (simp add: n_def)
  then have np: "n < p" and kn: "kind (ns0 ! n) = StartNode"
    using sh unfolding inv_shape_def by blast+
  have ln: "length (nodes st) = length ns0" and ld: "length (downs st) = length ns0"
    using sh by (simp_all add: inv_shape_def)
  have nl: "last (stack st) < length (nodes st)" using np p ln by (simp add: n_def)
  have srt: "sorted_wrt (<) (stack st)" using sh by (simp add: inv_shape_def)
  note f = end_facts[OF ee nl, folded n_def, folded ks_def]
  have mem: "(x \<in> set (stack st')) = (x \<in> set (stack st) \<and> x \<noteq> n)" for x
    using stack_set_butlast[OF ne] last_notin_butlast[OF srt ne] f(6) by (auto simp: n_def)
  have pe: "nodes st ! p = ns0 ! p" using sh p unfolding inv_shape_def by simp
  have kpe: "kind (nodes st' ! p) = EndNode" using f(3)[of p] pe kp by simp
  have upe: "up (nodes st' ! p) = None" using f(3)[of p] pe fr p by (simp add: fresh_def)
  have bound: "downCount st + length ks \<le> p"
    using pl kids_le_pending[OF nin, of p] unfolding inv_pool_def ks_def by simp
  have kk: "kids (nodes st') m [0 ..< Suc p] = kids (nodes st) m [0 ..< p]" for m
  proof -
    have "kids (nodes st') m [0 ..< p] = kids (nodes st) m [0 ..< p]"
      by (rule kids_cong) (simp add: f(3))
    then show ?thesis using upe by (simp add: kids_def)
  qed
  have p1: "pending st' (Suc p) =
      filter (\<lambda>i. listed (kind (nodes st ! i)) \<and> (\<exists>u \<in> set (stack st'). up (nodes st ! i) = Some u)) [0 ..< p]"
    unfolding pending_def using kpe by (simp add: listed_def f(3))
  have "length (pending st p) =
      length (filter (\<lambda>i. listed (kind (nodes st ! i)) \<and> (\<exists>u \<in> set (stack st'). up (nodes st ! i) = Some u)) [0 ..< p])
      + length ks"
    unfolding ks_def kids_def pending_def
    by (rule length_filter_split) (auto simp: mem nin)
  then have split: "length (pending st p) = length (pending st' (Suc p)) + length ks"
    by (simp only: p1)
  have a: "downCount st' + length (pending st' (Suc p)) \<le> Suc p"
    using pl split f(7) unfolding inv_pool_def by simp
  have b: "\<exists>off len. down (nodes st' ! m) = DPool off len \<and> off + len \<le> downCount st'
               \<and> take len (drop off (downs st')) = map Some (kids (nodes st') m [0 ..< Suc p])"
    if m: "m < Suc p" and km: "kind (ns0 ! m) = StartNode" and ms: "m \<notin> set (stack st')" for m
  proof (cases "m = n")
    case True
    have "take (length ks) (drop (downCount st) (downs st')) = map Some ks"
    proof (rule nth_equalityI)
      show "length (take (length ks) (drop (downCount st) (downs st'))) = length (map Some ks)"
        using bound p ld f(8) by simp
    next
      fix i assume "i < length (take (length ks) (drop (downCount st) (downs st')))"
      then have i: "i < length ks" by simp
      then have "downCount st + i < length (downs st')" using bound p ld f(8) by simp
      then show "take (length ks) (drop (downCount st) (downs st')) ! i = map Some ks ! i"
        using i f(10)[of i] by simp
    qed
    then show ?thesis using True f(5,7) kk[of n] by (simp add: ks_def)
  next
    case False
    have "m \<noteq> p" using km kp by auto
    then have m1: "m < p" using m by simp
    have m2: "m \<notin> set (stack st)" using ms mem False by simp
    obtain off len where o: "down (nodes st ! m) = DPool off len" "off + len \<le> downCount st"
        "take len (drop off (downs st)) = map Some (kids (nodes st) m [0 ..< p])"
      using pl m1 km m2 unfolding inv_pool_def by blast
    have "take len (drop off (downs st')) = take len (drop off (downs st))"
      using o(2) f(8,9) by (intro take_drop_cong) simp_all
    then show ?thesis using o False f(2)[of m] f(7) kk[of m] by simp
  qed
  show ?thesis
    unfolding inv_pool_def using a b by blast
qed

subsection \<open>The loop\<close>

lemma inv_skip:
  assumes iv: "inv ns0 p st" and fr: "fresh ns0" and p: "p < length ns0"
    and k: "\<not> opened (kind (ns0 ! p))"
  shows "inv ns0 (Suc p) st"
proof -
  have sh: "inv_shape ns0 p st" and fl: "inv_fields ns0 p st" and sb: "inv_sibl ns0 p st"
    and pl: "inv_pool ns0 p st"
    using iv by (simp_all add: inv_def)
  have pe: "nodes st ! p = ns0 ! p" using sh p k unfolding inv_shape_def by simp
  have upe: "up (nodes st ! p) = None" using pe fr p by (simp add: fresh_def)
  have a1: "\<forall>i < length ns0. Suc p \<le> i \<or> \<not> opened (kind (ns0 ! i)) \<longrightarrow> nodes st ! i = ns0 ! i"
  proof (intro allI impI)
    fix i assume "i < length ns0" "Suc p \<le> i \<or> \<not> opened (kind (ns0 ! i))"
    then have "i < length ns0 \<and> (p \<le> i \<or> \<not> opened (kind (ns0 ! i)))" by auto
    then show "nodes st ! i = ns0 ! i" using sh unfolding inv_shape_def by blast
  qed
  have a2: "\<forall>s \<in> set (stack st). s < Suc p \<and> kind (ns0 ! s) = StartNode"
  proof
    fix s assume "s \<in> set (stack st)"
    then have "s < p \<and> kind (ns0 ! s) = StartNode" using sh unfolding inv_shape_def by blast
    then show "s < Suc p \<and> kind (ns0 ! s) = StartNode" by simp
  qed
  have a: "inv_shape ns0 (Suc p) st"
    unfolding inv_shape_def using a1 a2 sh p by (simp add: inv_shape_def)
  have b: "inv_fields ns0 (Suc p) st"
    unfolding inv_fields_def
  proof (intro allI impI)
    fix i assume i: "i < Suc p" and oi: "opened (kind (ns0 ! i))"
    then have "i \<noteq> p" using k by auto
    then have "i < p" using i by simp
    then have "node_ok ns0 p st i" using fl oi unfolding inv_fields_def by blast
    then show "node_ok ns0 (Suc p) st i"
      unfolding node_ok_def by (simp add: less_SucI)
  qed
  have c: "inv_sibl ns0 (Suc p) st"
    unfolding inv_sibl_def
  proof (intro allI impI)
    fix i j assume ij: "i < j" and j: "j < Suc p" and oi: "opened (kind (ns0 ! i))"
      and oj: "opened (kind (ns0 ! j))" and u: "up (nodes st ! i) = up (nodes st ! j)"
    have "j \<noteq> p" using oj k by auto
    then have "j < p" using j by simp
    then show "i \<notin> set (stack st) \<and> end' (nodes st ! i) \<le> j"
      using sb ij oi oj u unfolding inv_sibl_def by blast
  qed
  have lk: "\<not> listed (kind (nodes st ! p))"
    using k pe by (auto simp: listed_def opened_def)
  have pd: "pending st (Suc p) = pending st p"
    unfolding pending_def using lk by simp
  have kd: "kids (nodes st) n [0 ..< Suc p] = kids (nodes st) n [0 ..< p]" for n
    using upe by (simp add: kids_def)
  have d: "inv_pool ns0 (Suc p) st"
    unfolding inv_pool_def pd kd
  proof (intro conjI allI impI)
    show "downCount st + length (pending st p) \<le> Suc p"
      using pl unfolding inv_pool_def by simp
  next
    fix n assume n: "n < Suc p" and kn: "kind (ns0 ! n) = StartNode" and ns: "n \<notin> set (stack st)"
    have "n \<noteq> p" using kn k by (auto simp: opened_def)
    then have "n < p" using n by simp
    then show "\<exists>off len. down (nodes st ! n) = DPool off len \<and> off + len \<le> downCount st
        \<and> take len (drop off (downs st)) = map Some (kids (nodes st) n [0 ..< p])"
      using pl kn ns unfolding inv_pool_def by blast
  qed
  show ?thesis using a b c d by (simp add: inv_def)
qed

lemma step_inv:
  assumes iv: "inv ns0 p st" and hd: "head_ok p st" and fr: "fresh ns0" and p: "p < length ns0"
  shows "\<exists>res st'. step p st = Inr (res, st') \<and> inv ns0 (Suc p) st'
           \<and> stack st' = (if kind (ns0 ! p) = StartNode then stack st @ [p]
                          else if kind (ns0 ! p) = EndNode then butlast (stack st) else stack st)
           \<and> (case res of
                 None \<Rightarrow> head_ok (Suc p) st' \<and> \<not> (kind (ns0 ! p) = EndNode \<and> length (stack st) \<le> 1)
               | Some r \<Rightarrow> r = 0 \<and> stack st' = [] \<and> kind (ns0 ! p) = EndNode
                   \<and> length (stack st) = 1 \<and> end' (nodes st' ! 0) = p)"
proof -
  have sh: "inv_shape ns0 p st" and fl: "inv_fields ns0 p st" and sb: "inv_sibl ns0 p st"
    and pl: "inv_pool ns0 p st"
    using iv by (simp_all add: inv_def)
  have len: "p < length (nodes st)" and ln: "length (nodes st) = length ns0"
    using sh p by (simp_all add: inv_shape_def)
  have kp: "kind (nodes st ! p) = kind (ns0 ! p)" using sh p by (simp add: inv_shape_def)
  have k0: "kind (ns0 ! 0) = StartNode" using fr by (simp add: fresh_def)
  consider (op) "opened (kind (ns0 ! p))" | (en) "kind (ns0 ! p) = EndNode"
    | (any) "kind (ns0 ! p) = AnyNode"
    by (cases "kind (ns0 ! p)") (auto simp: opened_def)
  then show ?thesis
  proof cases
    case op
    have s: "step p st = Inr (None, step_open p st)"
      using op kp by (simp add: step_def opened_def)
    have i': "inv ns0 (Suc p) (step_open p st)"
      using shape_open[OF sh p op] fields_open[OF sh fl hd fr p op]
        sibl_open[OF sh fl sb hd p] pool_open[OF sh fl pl fr p op]
      by (simp add: inv_def)
    have st: "stack (step_open p st) = (if kind (ns0 ! p) = StartNode then stack st @ [p] else stack st)"
      using kp by (simp add: step_open_eq[OF len])
    have "kind (ns0 ! p) \<noteq> EndNode" using op by (auto simp: opened_def)
    moreover have "head_ok (Suc p) (step_open p st)"
    proof (cases "p = 0")
      case True
      then have "stack st = []" using sh unfolding inv_shape_def by (cases "stack st") auto
      then show ?thesis using True st k0 by (simp add: head_ok_def)
    next
      case False
      then show ?thesis using st hd by (simp add: head_ok_def)
    qed
    ultimately show ?thesis using s i' st by simp
  next
    case any
    have no: "\<not> opened (kind (ns0 ! p))" using any by (simp add: opened_def)
    have s: "step p st = Inr (None, st)"
      using any kp by (simp add: step_def)
    have "p \<noteq> 0" using any k0 by (cases "p = 0") auto
    then have "head_ok (Suc p) st" using hd by (simp add: head_ok_def)
    then show ?thesis using s inv_skip[OF iv fr p no] any by simp
  next
    case en
    have "p \<noteq> 0" using en k0 by (cases "p = 0") auto
    then have ne: "stack st \<noteq> []" and h0: "hd (stack st) = 0"
      using hd by (simp_all add: head_ok_def)
    obtain st' where s': "step_end p st =
          Inr (if butlast (stack st) = [] then Some (last (stack st)) else None, st')"
      and ee: "end_effect p st st'"
      using step_end_effect[OF sh fl pl fr ne p] by blast
    have s: "step p st = Inr (if butlast (stack st) = [] then Some (last (stack st)) else None, st')"
      using en kp s' by (simp add: step_def)
    have i': "inv ns0 (Suc p) st'"
      using shape_end[OF sh ee ne p] fields_end[OF sh fl ee ne p en] sibl_end[OF sh sb ee ne p en]
        pool_end[OF sh fl pl fr ee ne p en]
      by (simp add: inv_def)
    have "last (stack st) \<in> set (stack st)" using ne by simp
    then have "last (stack st) < p" using sh unfolding inv_shape_def by blast
    then have nl: "last (stack st) < length (nodes st)" using p ln by simp
    note f = end_facts[OF ee nl]
    show ?thesis
    proof (cases "butlast (stack st) = []")
      case True
      then have one: "stack st = [0]" using ne h0
        by (cases "stack st") (auto split: if_splits)
      then show ?thesis using s i' True f(4,6) en by simp
    next
      case False
      then have "hd (butlast (stack st)) = 0" using h0 ne
        by (cases "stack st") (auto split: if_splits)
      moreover have "\<not> length (stack st) \<le> 1" using False
        by (cases "stack st") (auto split: if_splits)
      ultimately show ?thesis using s i' False f(6) en by (simp add: head_ok_def)
    qed
  qed
qed

lemma run_inv:
  assumes "inv ns0 p st" "head_ok p st" "fresh ns0" "p \<le> length ns0"
    and "0 < p \<longrightarrow> 0 < length (stack st)"
  shows "case close_pos (length (stack st)) p (drop p (map kind ns0)) of
           None \<Rightarrow> run [p ..< length ns0] st = Inl EOF
         | Some q \<Rightarrow> (\<exists>st'. run [p ..< length ns0] st = Inr (0, st') \<and> p \<le> q \<and> q < length ns0
               \<and> inv ns0 (Suc q) st' \<and> stack st' = [] \<and> kind (ns0 ! q) = EndNode
               \<and> end' (nodes st' ! 0) = q)"
  using assms
proof (induction "length ns0 - p" arbitrary: p st)
  case 0
  then have "p = length ns0" by simp
  then show ?case by simp
next
  case (Suc d)
  then have p: "p < length ns0" by simp
  have up: "[p ..< length ns0] = p # [Suc p ..< length ns0]"
    using p by (simp add: upt_conv_Cons)
  have dr: "drop p (map kind ns0) = kind (ns0 ! p) # drop (Suc p) (map kind ns0)"
    using p Cons_nth_drop_Suc[of p "map kind ns0"] by simp
  obtain res st' where s: "step p st = Inr (res, st')" and i': "inv ns0 (Suc p) st'"
    and stk: "stack st' = (if kind (ns0 ! p) = StartNode then stack st @ [p]
                          else if kind (ns0 ! p) = EndNode then butlast (stack st) else stack st)"
    and r: "case res of
                 None \<Rightarrow> head_ok (Suc p) st' \<and> \<not> (kind (ns0 ! p) = EndNode \<and> length (stack st) \<le> 1)
               | Some r \<Rightarrow> r = 0 \<and> stack st' = [] \<and> kind (ns0 ! p) = EndNode
                   \<and> length (stack st) = 1 \<and> end' (nodes st' ! 0) = p"
    using step_inv[OF Suc.prems(1,2,3) p] by blast
  show ?case
  proof (cases res)
    case (Some r0)
    then have "close_pos (length (stack st)) p (drop p (map kind ns0)) = Some p"
      using r dr by simp
    moreover have "run [p ..< length ns0] st = Inr (0, st')"
      using s Some r up by simp
    ultimately show ?thesis using i' r Some p by simp
  next
    case None
    have h: "head_ok (Suc p) st'" and nc: "\<not> (kind (ns0 ! p) = EndNode \<and> length (stack st) \<le> 1)"
      using r None by simp_all
    have l: "0 < length (stack st')" using h by (simp add: head_ok_def)
    have ru: "run [p ..< length ns0] st = run [Suc p ..< length ns0] st'"
      using s None up by simp
    have cp: "close_pos (length (stack st)) p (drop p (map kind ns0))
            = close_pos (length (stack st')) (Suc p) (drop (Suc p) (map kind ns0))"
      using nc stk dr by auto
    have d: "d = length ns0 - Suc p" using Suc.hyps(2) by simp
    have ih: "case close_pos (length (stack st')) (Suc p) (drop (Suc p) (map kind ns0)) of
           None \<Rightarrow> run [Suc p ..< length ns0] st' = Inl EOF
         | Some q \<Rightarrow> (\<exists>st''. run [Suc p ..< length ns0] st' = Inr (0, st'') \<and> Suc p \<le> q \<and> q < length ns0
               \<and> inv ns0 (Suc q) st'' \<and> stack st'' = [] \<and> kind (ns0 ! q) = EndNode
               \<and> end' (nodes st'' ! 0) = q)"
      using Suc.hyps(1)[OF d i' h Suc.prems(3)] p l by simp
    show ?thesis
      unfolding cp ru using ih by (auto split: option.splits)
  qed
qed

section \<open>From the parsers to the builder\<close>

lemma fresh_iff:
  "fresh ns = (ns \<noteq> [] \<and> kind (hd ns) = StartNode \<and> list_all blank ns)"
  by (cases ns) (auto simp: fresh_def blank_def list_all_length)

lemma blank_zero [simp]:
  "blank (zero_node k)" "blank ((zero_node k)\<lparr>name := a\<rparr>)"
  "blank ((zero_node k)\<lparr>name := a, attr := b\<rparr>)" "blank ((zero_node k)\<lparr>text' := c\<rparr>)"
  "blank ((zero_node k)\<lparr>name := a, text' := c\<rparr>)"
  by (simp_all add: blank_def zero_node_def)

lemma blank_token_events: "list_all blank (token_events t)"
  by (cases t) (auto simp: list_all_iff)

lemma blank_events: "list_all blank (events ts)"
  by (induction ts) (simp_all add: events_def blank_token_events)

lemma add_text_eq: "add_text buf t = (buf @ t, t)"
  by (simp add: add_text_def)

lemma token_nodes_eq: "fst (token_nodes t (ns, buf)) = ns @ token_events t"
  by (cases t) (simp_all add: add_text_eq)

lemma read_tokens_Inr:
  "read_tokens (map Inr ts) (ns, buf) = Inr (ns', txt) \<Longrightarrow> ns' = ns @ events ts"
proof (induction ts arbitrary: ns buf)
  case Nil
  then show ?case by (simp add: events_def)
next
  case (Cons t ts)
  obtain ns1 buf1 where t1: "token_nodes t (ns, buf) = (ns1, buf1)" by fastforce
  then have "ns1 = ns @ token_events t" using token_nodes_eq[of t ns buf] by simp
  moreover have "ns' = ns1 @ events ts" using Cons t1 by simp
  ultimately show ?case by (simp add: events_def)
qed

lemma read_tokens_total:
  "\<exists>txt. read_tokens (map Inr ts) (ns, buf) = Inr (ns @ events ts, txt)"
proof (induction ts arbitrary: ns buf)
  case Nil
  then show ?case by (simp add: events_def)
next
  case (Cons t ts)
  obtain ns1 buf1 where t1: "token_nodes t (ns, buf) = (ns1, buf1)" by fastforce
  then have "ns1 = ns @ token_events t" using token_nodes_eq[of t ns buf] by simp
  then show ?case using Cons[of ns1 buf1] t1 by (simp add: events_def)
qed

lemma read_tokens_blank:
  "read_tokens d (ns, buf) = Inr (ns', txt) \<Longrightarrow> \<exists>xs. ns' = ns @ xs \<and> list_all blank xs"
proof (induction d arbitrary: ns buf)
  case Nil
  then show ?case by simp
next
  case (Cons r d)
  show ?case
  proof (cases r)
    case (Inl e)
    then show ?thesis using Cons.prems by (auto split: if_splits)
  next
    case (Inr t)
    obtain ns1 buf1 where t1: "token_nodes t (ns, buf) = (ns1, buf1)" by fastforce
    then have n1: "ns1 = ns @ token_events t" using token_nodes_eq[of t ns buf] by simp
    obtain xs where "ns' = ns1 @ xs" "list_all blank xs"
      using Cons.IH[of ns1 buf1] Cons.prems Inr t1 by auto
    then show ?thesis using n1 blank_token_events[of t] by auto
  qed
qed

lemma inv_init:
  assumes "fresh ns0"
  shows "inv ns0 0 (init ns0)" "head_ok 0 (init ns0)"
  unfolding inv_def inv_shape_def inv_fields_def inv_sibl_def inv_pool_def pending_def head_ok_def
  by (simp_all add: init_def)

lemma build_result:
  assumes fr: "fresh ns0"
  shows "case close_pos 0 0 (map kind ns0) of
           None \<Rightarrow> build ns0 = Inl EOF
         | Some q \<Rightarrow> (\<exists>st'. build ns0 = Inr (0, st') \<and> q < length ns0
               \<and> inv ns0 (Suc q) st' \<and> stack st' = [] \<and> kind (ns0 ! q) = EndNode
               \<and> end' (nodes st' ! 0) = q)"
proof -
  have s0: "stack (init ns0) = []" by (simp add: init_def)
  show ?thesis
    unfolding build_def using run_inv[OF inv_init[OF fr] fr, simplified s0]
    by (auto simp: s0 split: option.splits)
qed

lemma ParseDecoder_build:
  assumes "ParseDecoder d = Inr (r, st)"
  shows "\<exists>xs. list_all blank xs \<and> build (zero_node StartNode # xs @ [zero_node EndNode]) = Inr (r, st)"
proof -
  obtain ns buf where rt: "read_tokens d ([zero_node StartNode], []) = Inr (ns, buf)"
    and b: "build (ns @ [zero_node EndNode]) = Inr (r, st)"
    using assms by (auto simp: ParseDecoder_def split: sum.splits)
  obtain xs where "ns = [zero_node StartNode] @ xs" "list_all blank xs"
    using read_tokens_blank[OF rt] by blast
  then show ?thesis using b by auto
qed

lemma upt_split:
  assumes "a \<le> b" "b \<le> c"
  shows "[a ..< c] = [a ..< b] @ [b ..< c]"
proof -
  have "c = b + (c - b)" using assms by simp
  then show ?thesis using upt_add_eq_append[OF assms(1), of "c - b"] by simp
qed

lemma kind_zero [simp]: "kind (zero_node k) = k"
  by (simp add: zero_node_def)

lemma html_open_blank:
  "\<exists>xs. fst (html_open n acc) = fst acc @ xs \<and> list_all blank xs"
  by (cases acc) (auto simp: html_open_def add_text_eq list_all_iff)

lemma html_walk_blank:
  "\<exists>xs. fst (html_walk n acc) = fst acc @ xs \<and> list_all blank xs"
  "\<exists>xs. fst (html_walk_list cs acc) = fst acc @ xs \<and> list_all blank xs"
proof (induction n acc and cs acc rule: html_walk_html_walk_list.induct)
  case (1 ty d sp as cs acc)
  obtain xs where x: "fst (html_open (html_Node ty d sp as cs) acc) = fst acc @ xs" "list_all blank xs"
    using html_open_blank by blast
  obtain ys where y: "fst (html_walk_list cs (html_open (html_Node ty d sp as cs) acc))
      = fst (html_open (html_Node ty d sp as cs) acc) @ ys" "list_all blank ys"
    using 1 by blast
  show ?case
    using x y by (cases "html_walk_list cs (html_open (html_Node ty d sp as cs) acc)") auto
next
  case (2 acc)
  then show ?case by simp
next
  case (3 c cs acc)
  obtain xs where x: "fst (html_walk c acc) = fst acc @ xs" "list_all blank xs"
    using 3 by blast
  obtain ys where y: "fst (html_walk_list cs (html_walk c acc)) = fst (html_walk c acc) @ ys"
      "list_all blank ys"
    using 3 by blast
  show ?case using x y by auto
qed

lemma ParseHTML_build:
  assumes "ParseHTML h = Inr (r, st)"
  shows "\<exists>xs. list_all blank xs \<and> build (zero_node StartNode # xs @ [zero_node EndNode]) = Inr (r, st)"
proof -
  obtain n hs ns buf where w: "html_walk n ([zero_node StartNode], []) = (ns, buf)"
    and b: "build (ns @ [zero_node EndNode]) = Inr (r, st)"
    using assms by (auto simp: ParseHTML_def split: sum.splits list.splits prod.splits)
  obtain xs where "ns = [zero_node StartNode] @ xs" "list_all blank xs"
    using html_walk_blank(1)[of n "([zero_node StartNode], [])"] w by auto
  then show ?thesis using b by auto
qed

lemma fresh_wrapped:
  assumes "list_all blank xs"
  shows "fresh (zero_node StartNode # xs @ [zero_node EndNode])"
  using assms by (simp add: fresh_iff)

section \<open>The tree a successful construction returns\<close>

lemma build_success:
  assumes fr: "fresh ns0" and b: "build ns0 = Inr (r, st)"
  shows "r = 0 \<and> (\<exists>q. built ns0 q st)"
proof (cases "close_pos 0 0 (map kind ns0)")
  case None
  then show ?thesis using build_result[OF fr] b by simp
next
  case (Some q)
  then show ?thesis using build_result[OF fr] b fr by (auto simp: built_def)
qed

lemma parsed_built:
  assumes "ParseDecoder d = Inr (r, st) \<or> ParseHTML h = Inr (r, st)"
  shows "r = 0 \<and> (\<exists>xs q. list_all blank xs \<and> built (zero_node StartNode # xs @ [zero_node EndNode]) q st)"
proof -
  obtain xs where x: "list_all blank xs"
    and b: "build (zero_node StartNode # xs @ [zero_node EndNode]) = Inr (r, st)"
    using assms ParseDecoder_build ParseHTML_build by blast
  show ?thesis using build_success[OF fresh_wrapped[OF x] b] x by blast
qed

lemma built_shape:
  assumes "built ns0 q st"
  shows "length (nodes st) = length ns0"
    and "\<And>i. i < length ns0 \<Longrightarrow> kind (nodes st ! i) = kind (ns0 ! i) \<and> name (nodes st ! i) = name (ns0 ! i)
            \<and> attr (nodes st ! i) = attr (ns0 ! i) \<and> text' (nodes st ! i) = text' (ns0 ! i)"
    and "\<And>i. i < length ns0 \<Longrightarrow> q < i \<or> \<not> opened (kind (ns0 ! i)) \<Longrightarrow> nodes st ! i = ns0 ! i"
proof -
  have sh: "inv_shape ns0 (Suc q) st" using assms by (simp add: built_def inv_def)
  show "length (nodes st) = length ns0" using sh by (simp add: inv_shape_def)
  show "\<And>i. i < length ns0 \<Longrightarrow> kind (nodes st ! i) = kind (ns0 ! i) \<and> name (nodes st ! i) = name (ns0 ! i)
            \<and> attr (nodes st ! i) = attr (ns0 ! i) \<and> text' (nodes st ! i) = text' (ns0 ! i)"
    using sh unfolding inv_shape_def by blast
  show "\<And>i. i < length ns0 \<Longrightarrow> q < i \<or> \<not> opened (kind (ns0 ! i)) \<Longrightarrow> nodes st ! i = ns0 ! i"
  proof -
    fix i assume "i < length ns0" "q < i \<or> \<not> opened (kind (ns0 ! i))"
    then have "i < length ns0 \<and> (Suc q \<le> i \<or> \<not> opened (kind (ns0 ! i)))" by auto
    then show "nodes st ! i = ns0 ! i" using sh unfolding inv_shape_def by blast
  qed
qed

lemma built_node:
  assumes b: "built ns0 q st" and i: "i < q" and o: "opened (kind (nodes st ! i))"
  shows "pos (nodes st ! i) = i" and "nodes_len (nodes st ! i) = length (nodes st)"
    and "kind (nodes st ! i) \<noteq> StartNode \<Longrightarrow> end' (nodes st ! i) = i + 1"
    and "i < end' (nodes st ! i)" and "end' (nodes st ! i) \<le> q"
    and "(up (nodes st ! i) = None) = (i = 0)"
    and "\<And>u. up (nodes st ! i) = Some u \<Longrightarrow>
           u < i \<and> kind (nodes st ! u) = StartNode \<and> end' (nodes st ! i) \<le> end' (nodes st ! u)"
proof -
  have q: "q < length ns0" and s: "stack st = []" using b by (simp_all add: built_def)
  have fl: "inv_fields ns0 (Suc q) st" using b by (simp add: built_def inv_def)
  have k: "kind (nodes st ! j) = kind (ns0 ! j)" if "j < length ns0" for j
    using built_shape(2)[OF b that] by simp
  have "opened (kind (ns0 ! i))" using o k[of i] i q by simp
  then have ok: "node_ok ns0 (Suc q) st i" using fl i unfolding inv_fields_def by simp
  note n = ok[unfolded node_ok_def s, simplified]
  show "pos (nodes st ! i) = i" using n by simp
  show "nodes_len (nodes st ! i) = length (nodes st)" using n built_shape(1)[OF b] by simp
  show "kind (nodes st ! i) \<noteq> StartNode \<Longrightarrow> end' (nodes st ! i) = i + 1"
    using n k[of i] i q by simp
  show e1: "i < end' (nodes st ! i)" using n by (cases "kind (ns0 ! i) = StartNode") simp_all
  show "end' (nodes st ! i) \<le> q" using n i by (cases "kind (ns0 ! i) = StartNode") simp_all
  show "(up (nodes st ! i) = None) = (i = 0)" using n by (cases "up (nodes st ! i)") auto
  show "\<And>u. up (nodes st ! i) = Some u \<Longrightarrow>
           u < i \<and> kind (nodes st ! u) = StartNode \<and> end' (nodes st ! i) \<le> end' (nodes st ! u)"
  proof -
    fix u assume u: "up (nodes st ! i) = Some u"
    then have "u < i \<and> kind (ns0 ! u) = StartNode \<and> end' (nodes st ! i) \<le> end' (nodes st ! u)"
      using n by simp
    then show "u < i \<and> kind (nodes st ! u) = StartNode \<and> end' (nodes st ! i) \<le> end' (nodes st ! u)"
      using k[of u] i q by simp
  qed
qed

lemma built_up:
  assumes b: "built ns0 q st" and i: "i < length (nodes st)" and u: "up (nodes st ! i) = Some u"
  shows "u < i \<and> i < q \<and> opened (kind (nodes st ! i)) \<and> kind (nodes st ! u) = StartNode"
proof -
  have q: "q < length ns0" and fr: "fresh ns0" and kq: "kind (ns0 ! q) = EndNode"
    using b by (simp_all add: built_def)
  have sh: "inv_shape ns0 (Suc q) st" and fl: "inv_fields ns0 (Suc q) st"
    using b by (simp_all add: built_def inv_def)
  have il: "i < length ns0" using i built_shape(1)[OF b] by simp
  note l = up_lt[OF sh fl fr il u]
  have "i \<noteq> q" using l kq by (auto simp: opened_def)
  then show ?thesis using l built_shape(2)[OF b, of i] built_shape(2)[OF b, of u] il by simp
qed

lemma built_sibling:
  assumes b: "built ns0 q st" and ij: "i < j" and j: "j < q"
    and oi: "opened (kind (nodes st ! i))" and oj: "opened (kind (nodes st ! j))"
    and u: "up (nodes st ! i) = up (nodes st ! j)"
  shows "end' (nodes st ! i) \<le> j"
proof -
  have q: "q < length ns0" using b by (simp add: built_def)
  have sb: "inv_sibl ns0 (Suc q) st" using b by (simp add: built_def inv_def)
  have "opened (kind (ns0 ! i))" "opened (kind (ns0 ! j))"
    using oi oj built_shape(2)[OF b, of i] built_shape(2)[OF b, of j] ij j q by simp_all
  then show ?thesis using sb ij j u unfolding inv_sibl_def by (simp add: less_SucI)
qed

lemma built_children:
  assumes b: "built ns0 q st" and n: "n < length (nodes st)" and k: "kind (nodes st ! n) = StartNode"
  shows "down_view st n = map Some (kids (nodes st) n [0 ..< length (nodes st)])"
proof -
  have q: "q < length ns0" and fr: "fresh ns0" and s: "stack st = []"
    using b by (simp_all add: built_def)
  have pl: "inv_pool ns0 (Suc q) st" using b by (simp add: built_def inv_def)
  have ln: "length (nodes st) = length ns0" by (rule built_shape(1)[OF b])
  have kn: "kind (ns0 ! n) = StartNode" using k built_shape(2)[OF b, of n] n ln by simp
  have a: "[0 ..< length (nodes st)] = [0 ..< Suc q] @ [Suc q ..< length (nodes st)]"
    using q ln by (intro upt_split) simp_all
  have "kids (nodes st) n [Suc q ..< length (nodes st)] = []"
    unfolding kids_def
  proof (rule filter_False, rule ballI)
    fix i assume "i \<in> set [Suc q ..< length (nodes st)]"
    then have i: "q < i" "i < length (nodes st)" by auto
    show "\<not> (up (nodes st ! i) = Some n \<and> listed (kind (nodes st ! i)))"
      using built_up[OF b i(2), of n] i(1) by auto
  qed
  then have kk: "kids (nodes st) n [0 ..< length (nodes st)] = kids (nodes st) n [0 ..< Suc q]"
    by (simp only: a kids_append append_Nil2)
  show ?thesis
  proof (cases "n < Suc q")
    case True
    then obtain off len where "down (nodes st ! n) = DPool off len"
        "take len (drop off (downs st)) = map Some (kids (nodes st) n [0 ..< Suc q])"
      using pl kn s unfolding inv_pool_def by force
    then show ?thesis by (simp add: down_view_def kk)
  next
    case False
    then have "nodes st ! n = ns0 ! n" using built_shape(3)[OF b, of n] n ln by simp
    then have d: "down (nodes st ! n) = DOwn []" using fr n ln by (simp add: fresh_def)
    have "kids (nodes st) n [0 ..< Suc q] = []"
      unfolding kids_def
    proof (rule filter_False, rule ballI)
      fix i assume "i \<in> set [0 ..< Suc q]"
      then have i: "i < Suc q" by auto
      then have il: "i < length (nodes st)" using q ln by simp
      show "\<not> (up (nodes st ! i) = Some n \<and> listed (kind (nodes st ! i)))"
        using built_up[OF b il, of n] i False by auto
    qed
    then show ?thesis using d by (simp add: down_view_def kk)
  qed
qed

lemma kids_filter:
  "kids ns n is = filter (\<lambda>i. up (ns ! i) = Some n
      \<and> kind (ns ! i) \<in> {StartNode, TextNode, CommentNode, ProcInstNode}) is"
  by (simp add: kids_def listed_def)

text \<open>
  C5: in the tree of every successful construction, by either parser, the children
  list of an element \<open>n\<close> holds exactly the positions whose parent is \<open>n\<close> and whose
  kind is \<open>StartNode\<close>, \<open>TextNode\<close>, \<open>CommentNode\<close> or \<open>ProcInstNode\<close>, in document
  order. So no attribute is in it and the parent of every entry is \<open>n\<close>. The list is
  read through the window of the shared array that the node holds: no later write
  into the array has changed it.
\<close>

theorem children_are_listed_children:
  assumes "ParseDecoder d = Inr (r, st) \<or> ParseHTML h = Inr (r, st)"
    and "n < length (nodes st)" and "kind (nodes st ! n) = StartNode"
  shows "down_view st n =
     map Some (filter (\<lambda>i. up (nodes st ! i) = Some n
         \<and> kind (nodes st ! i) \<in> {StartNode, TextNode, CommentNode, ProcInstNode})
       [0 ..< length (nodes st)])"
proof -
  obtain xs q where "built (zero_node StartNode # xs @ [zero_node EndNode]) q st"
    using parsed_built[OF assms(1)] by blast
  then show ?thesis using built_children[OF _ assms(2,3)] by (simp add: kids_filter)
qed

lemma built_descendant:
  assumes b: "built ns0 q st" and d: "descendant (nodes st) a d"
  shows "a < d \<and> d < q \<and> kind (nodes st ! a) = StartNode \<and> a < q
       \<and> pos (nodes st ! a) < pos (nodes st ! d)
       \<and> pos (nodes st ! d) < end' (nodes st ! d)
       \<and> end' (nodes st ! d) \<le> end' (nodes st ! a)"
  using d
proof (induction rule: descendant.induct)
  case (child d a)
  have u: "a < d \<and> d < q \<and> opened (kind (nodes st ! d)) \<and> kind (nodes st ! a) = StartNode"
    using built_up[OF b child(1,2)] by simp
  then have oa: "opened (kind (nodes st ! a))" "a < q" by (simp_all add: opened_def)
  show ?case
    using u oa built_node(1,4)[OF b, of d] built_node(7)[OF b, of d a] built_node(1)[OF b, of a] child(2)
    by simp
next
  case (below d u a)
  have l: "u < d \<and> d < q \<and> opened (kind (nodes st ! d)) \<and> kind (nodes st ! u) = StartNode"
    using built_up[OF b below(1,2)] by simp
  then have ou: "opened (kind (nodes st ! u))" "u < q" by (simp_all add: opened_def)
  have oa: "opened (kind (nodes st ! a))" "a < q" using below.IH by (simp_all add: opened_def)
  have "end' (nodes st ! d) \<le> end' (nodes st ! u)"
    using l built_node(7)[OF b, of d u] below(2) by simp
  then show ?case
    using l below.IH built_node(1,4)[OF b, of d] built_node(1)[OF b ou(2,1)] built_node(1)[OF b oa(2,1)]
    by simp
qed

text \<open>
  C8: in the tree of every successful construction the range of a node of the tree
  that is not an element is \<open>[pos, pos + 1)\<close>; the range of a descendant lies within
  the range of its ancestor, which is an element and starts strictly before it; and the
  ranges of two different nodes of the tree with the same parent do not overlap. The
  nodes of the tree are the positions before the end of the root's range.
\<close>

theorem ranges_nest:
  assumes "ParseDecoder d = Inr (r, st) \<or> ParseHTML h = Inr (r, st)"
  shows "(\<forall>i < end' (nodes st ! r). kind (nodes st ! i) \<in> {AttrNode, TextNode, CommentNode, ProcInstNode}
            \<longrightarrow> pos (nodes st ! i) = i \<and> end' (nodes st ! i) = pos (nodes st ! i) + 1)
       \<and> (\<forall>a c. descendant (nodes st) a c \<longrightarrow>
            kind (nodes st ! a) = StartNode
            \<and> pos (nodes st ! a) < pos (nodes st ! c)
            \<and> pos (nodes st ! c) < end' (nodes st ! c)
            \<and> end' (nodes st ! c) \<le> end' (nodes st ! a))
       \<and> (\<forall>i j. i < end' (nodes st ! r) \<and> j < end' (nodes st ! r) \<and> i \<noteq> j
            \<and> kind (nodes st ! i) \<in> {StartNode, AttrNode, TextNode, CommentNode, ProcInstNode}
            \<and> kind (nodes st ! j) \<in> {StartNode, AttrNode, TextNode, CommentNode, ProcInstNode}
            \<and> up (nodes st ! i) = up (nodes st ! j)
            \<longrightarrow> end' (nodes st ! i) \<le> pos (nodes st ! j) \<or> end' (nodes st ! j) \<le> pos (nodes st ! i))"
proof -
  obtain xs q where r: "r = 0" and b: "built (zero_node StartNode # xs @ [zero_node EndNode]) q st"
    using parsed_built[OF assms(1)] by blast
  have e: "end' (nodes st ! r) = q" using b r by (simp add: built_def)
  have a: "pos (nodes st ! i) = i \<and> end' (nodes st ! i) = pos (nodes st ! i) + 1"
    if "i < q" "kind (nodes st ! i) \<in> {AttrNode, TextNode, CommentNode, ProcInstNode}" for i
  proof -
    have "opened (kind (nodes st ! i))" "kind (nodes st ! i) \<noteq> StartNode"
      using that(2) by (auto simp: opened_def)
    then show ?thesis using built_node(1,3)[OF b that(1)] by simp
  qed
  have c: "end' (nodes st ! i) \<le> pos (nodes st ! j) \<or> end' (nodes st ! j) \<le> pos (nodes st ! i)"
    if "i < q" "j < q" "i \<noteq> j"
      "kind (nodes st ! i) \<in> {StartNode, AttrNode, TextNode, CommentNode, ProcInstNode}"
      "kind (nodes st ! j) \<in> {StartNode, AttrNode, TextNode, CommentNode, ProcInstNode}"
      "up (nodes st ! i) = up (nodes st ! j)" for i j
  proof -
    have o: "opened (kind (nodes st ! i))" "opened (kind (nodes st ! j))"
      using that(4,5) by (simp_all add: opened_def)
    have p: "pos (nodes st ! i) = i" "pos (nodes st ! j) = j"
      using built_node(1)[OF b that(1) o(1)] built_node(1)[OF b that(2) o(2)] by simp_all
    show ?thesis
    proof (cases "i < j")
      case True
      then show ?thesis using built_sibling[OF b True that(2) o that(6)] p by simp
    next
      case False
      then have "j < i" using that(3) by simp
      then show ?thesis using built_sibling[OF b _ that(1) o(2,1)] that(6) p by simp
    qed
  qed
  show ?thesis
    unfolding e using a c built_descendant[OF b] by blast
qed

lemma read_tokens_first:
  assumes "read_tokens (Inr t # d) (ns, buf) = Inr (ns', txt)"
  shows "\<exists>xs. ns' = ns @ token_events t @ xs \<and> list_all blank xs"
proof -
  obtain ns1 buf1 where t1: "token_nodes t (ns, buf) = (ns1, buf1)" by fastforce
  then have n1: "ns1 = ns @ token_events t" using token_nodes_eq[of t ns buf] by simp
  have "read_tokens d (ns1, buf1) = Inr (ns', txt)" using assms t1 by simp
  then obtain xs where "ns' = ns1 @ xs" "list_all blank xs"
    using read_tokens_blank by blast
  then show ?thesis using n1 by auto
qed

lemma html_walk_first:
  "\<exists>xs. fst (html_walk (html_Node html_ElementNode dt sp as cs) (ns, buf))
         = ns @ (zero_node StartNode)\<lparr>name := \<lparr>Space = sp, Local = dt\<rparr>\<rparr> # xs \<and> list_all blank xs"
proof -
  let ?n = "html_Node html_ElementNode dt sp as cs"
  obtain ys where o: "fst (html_open ?n (ns, buf))
      = ns @ (zero_node StartNode)\<lparr>name := \<lparr>Space = sp, Local = dt\<rparr>\<rparr> # ys" "list_all blank ys"
    by (auto simp: html_open_def list_all_iff)
  obtain zs where w: "fst (html_walk_list cs (html_open ?n (ns, buf))) = fst (html_open ?n (ns, buf)) @ zs"
      "list_all blank zs"
    using html_walk_blank(2) by blast
  show ?thesis
    using o w by (cases "html_walk_list cs (html_open ?n (ns, buf))") auto
qed

lemma first_element:
  assumes b: "build (zero_node StartNode # (zero_node StartNode)\<lparr>name := nm\<rparr> # xs @ [zero_node EndNode])
               = Inr (r, st)"
    and x: "list_all blank xs"
  shows "kind (nodes st ! 1) = StartNode \<and> name (nodes st ! 1) = nm \<and> up (nodes st ! 1) = Some 0
       \<and> Some 1 \<in> set (down_view st 0)"
proof -
  let ?ns = "zero_node StartNode # ((zero_node StartNode)\<lparr>name := nm\<rparr> # xs) @ [zero_node EndNode]"
  have fr: "fresh ?ns" using x by (intro fresh_wrapped) simp
  obtain q where bt: "built ?ns q st" using build_success[OF fr] b by auto
  have ln: "length (nodes st) = length ?ns" by (rule built_shape(1)[OF bt])
  have q: "q < length ?ns" "kind (?ns ! q) = EndNode" using bt by (simp_all add: built_def)
  have k1: "kind (nodes st ! 1) = StartNode" "name (nodes st ! 1) = nm"
    using built_shape(2)[OF bt, of 1] by simp_all
  have k0: "kind (nodes st ! 0) = StartNode" using built_shape(2)[OF bt, of 0] by simp
  have "q \<noteq> 0 \<and> q \<noteq> 1" using q(2) by (auto simp: nth_Cons split: nat.splits)
  then have q1: "1 < q" by simp
  have o1: "opened (kind (nodes st ! 1))" using k1 by (simp add: opened_def)
  obtain u where u: "up (nodes st ! 1) = Some u"
    using built_node(6)[OF bt q1 o1] by (cases "up (nodes st ! 1)") auto
  then have "u < 1" using built_node(7)[OF bt q1 o1] by simp
  then have u0: "up (nodes st ! 1) = Some 0" using u by simp
  have l1: "1 < length (nodes st)" "0 < length (nodes st)" using ln by simp_all
  have "1 \<in> set (kids (nodes st) 0 [0 ..< length (nodes st)])"
    using u0 k1 l1 by (simp add: kids_def listed_def)
  then have "Some 1 \<in> set (down_view st 0)"
    using built_children[OF bt l1(2) k0] by simp
  then show ?thesis using k1 u0 by simp
qed

text \<open>
  C10: every successful construction, by either parser, returns the node at position
  0, the wrapper that the parser puts before the first event: an element with the empty
  name and no parent. Every other node of the tree has a parent, every element whose
  parent is the root is in the root's children list, and when the document starts with
  an element (the first token of the decoder, the first node of the HTML parser), that
  element is the node at position 1, with its own name, a child of the root.
\<close>

theorem root_is_synthetic:
  assumes "ParseDecoder d = Inr (r, st) \<or> ParseHTML h = Inr (r, st)"
  shows "r = 0 \<and> kind (nodes st ! r) = StartNode
       \<and> name (nodes st ! r) = \<lparr>Space = [], Local = []\<rparr> \<and> up (nodes st ! r) = None
       \<and> (\<forall>i < end' (nodes st ! r). i \<noteq> r
             \<and> kind (nodes st ! i) \<in> {StartNode, AttrNode, TextNode, CommentNode, ProcInstNode}
             \<longrightarrow> up (nodes st ! i) \<noteq> None)
       \<and> (\<forall>i < length (nodes st). kind (nodes st ! i) = StartNode \<and> up (nodes st ! i) = Some r
             \<longrightarrow> Some i \<in> set (down_view st r))
       \<and> (\<forall>nm as d'. ParseDecoder d = Inr (r, st) \<and> d = Inr (StartElement nm as) # d' \<longrightarrow>
             kind (nodes st ! 1) = StartNode \<and> name (nodes st ! 1) = nm
             \<and> up (nodes st ! 1) = Some r \<and> Some 1 \<in> set (down_view st r))
       \<and> (\<forall>dt sp as cs hs. ParseHTML h = Inr (r, st)
             \<and> h = Inr (html_Node html_ElementNode dt sp as cs # hs) \<longrightarrow>
             kind (nodes st ! 1) = StartNode \<and> name (nodes st ! 1) = \<lparr>Space = sp, Local = dt\<rparr>
             \<and> up (nodes st ! 1) = Some r \<and> Some 1 \<in> set (down_view st r))"
proof -
  obtain xs q where r: "r = 0" and x: "list_all blank xs"
    and b: "built (zero_node StartNode # xs @ [zero_node EndNode]) q st"
    using parsed_built[OF assms(1)] by blast
  let ?ns = "zero_node StartNode # xs @ [zero_node EndNode]"
  have ln: "length (nodes st) = length ?ns" by (rule built_shape(1)[OF b])
  have q: "q < length ?ns" "kind (?ns ! q) = EndNode" "end' (nodes st ! 0) = q"
    using b by (simp_all add: built_def)
  have k0: "kind (nodes st ! 0) = StartNode" "name (nodes st ! 0) = \<lparr>Space = [], Local = []\<rparr>"
    using built_shape(2)[OF b, of 0] by (simp_all add: zero_node_def zero_name_def)
  have "q \<noteq> 0" using q(2) by (cases "q = 0") auto
  then have q0: "0 < q" by simp
  have u0: "up (nodes st ! 0) = None"
    using built_node(6)[OF b q0] k0 by (simp add: opened_def)
  have a: "up (nodes st ! i) \<noteq> None"
    if "i < q" "i \<noteq> 0"
      "kind (nodes st ! i) \<in> {StartNode, AttrNode, TextNode, CommentNode, ProcInstNode}" for i
    using built_node(6)[OF b that(1)] that(2,3) by (simp add: opened_def)
  have c: "Some i \<in> set (down_view st 0)"
    if "i < length (nodes st)" "kind (nodes st ! i) = StartNode" "up (nodes st ! i) = Some 0" for i
  proof -
    have "i \<in> set (kids (nodes st) 0 [0 ..< length (nodes st)])"
      using that by (simp add: kids_def listed_def)
    moreover have "0 < length (nodes st)" using ln by simp
    ultimately show ?thesis using built_children[OF b _ k0(1)] by simp
  qed
  have e: "kind (nodes st ! 1) = StartNode \<and> name (nodes st ! 1) = nm
             \<and> up (nodes st ! 1) = Some 0 \<and> Some 1 \<in> set (down_view st 0)"
    if pd: "ParseDecoder d = Inr (0, st)" and d: "d = Inr (StartElement nm as) # d'" for nm as d'
  proof -
    obtain ns buf where rt: "read_tokens d ([zero_node StartNode], []) = Inr (ns, buf)"
      and bd: "build (ns @ [zero_node EndNode]) = Inr (0, st)"
      using pd by (auto simp: ParseDecoder_def split: sum.splits)
    obtain ys where y: "ns = [zero_node StartNode] @ token_events (StartElement nm as) @ ys"
        "list_all blank ys"
      using read_tokens_first[OF rt[unfolded d]] by blast
    define zs where "zs = map (\<lambda>(an, av). (zero_node AttrNode)\<lparr>name := an, attr := av\<rparr>) as @ ys"
    have z: "list_all blank zs" using y(2) by (auto simp: zs_def list_all_iff)
    have "ns @ [zero_node EndNode]
        = zero_node StartNode # (zero_node StartNode)\<lparr>name := nm\<rparr> # zs @ [zero_node EndNode]"
      using y(1) by (simp add: zs_def)
    then show ?thesis using first_element[OF _ z, of nm 0 st] bd by simp
  qed
  have f: "kind (nodes st ! 1) = StartNode \<and> name (nodes st ! 1) = \<lparr>Space = sp, Local = dt\<rparr>
             \<and> up (nodes st ! 1) = Some 0 \<and> Some 1 \<in> set (down_view st 0)"
    if ph: "ParseHTML h = Inr (0, st)" and hh: "h = Inr (html_Node html_ElementNode dt sp as cs # hs)"
    for dt sp as cs hs
  proof -
    obtain ns buf where w: "html_walk (html_Node html_ElementNode dt sp as cs) ([zero_node StartNode], []) = (ns, buf)"
      and bd: "build (ns @ [zero_node EndNode]) = Inr (0, st)"
      using ph unfolding hh by (auto simp: ParseHTML_def split: prod.splits)
    obtain zs where z: "ns = [zero_node StartNode] @ (zero_node StartNode)\<lparr>name := \<lparr>Space = sp, Local = dt\<rparr>\<rparr> # zs"
        "list_all blank zs"
      using html_walk_first[of dt sp as cs "[zero_node StartNode]" "[]"] w by auto
    show ?thesis using first_element[OF _ z(2), of "\<lparr>Space = sp, Local = dt\<rparr>" 0 st] bd z(1) by simp
  qed
  show ?thesis
    unfolding r using k0 u0 q(3) a c e f by blast
qed

section \<open>When construction succeeds\<close>

lemma close_pos_attrs:
  "close_pos d p (map kind (map (\<lambda>(an, av). (zero_node AttrNode)\<lparr>name := an, attr := av\<rparr>) as) @ rest)
     = close_pos d (p + length as) rest"
  by (induction as arbitrary: p) (auto simp: zero_node_def)

lemma close_pos_events:
  "nested d ts \<Longrightarrow>
     close_pos (Suc d) p (map kind (events ts) @ rest) = close_pos 1 (p + length (events ts)) rest"
proof (induction d ts arbitrary: p rule: nested.induct)
  case (1 d)
  then show ?case by (simp add: events_def)
next
  case (2 d nm as ts)
  have "close_pos (Suc d) p (map kind (events (StartElement nm as # ts)) @ rest)
      = close_pos (Suc (Suc d)) (Suc p)
          (map kind (map (\<lambda>(an, av). (zero_node AttrNode)\<lparr>name := an, attr := av\<rparr>) as)
             @ (map kind (events ts) @ rest))"
    by (simp add: events_def)
  also have "\<dots> = close_pos (Suc (Suc d)) (Suc p + length as) (map kind (events ts) @ rest)"
    by (rule close_pos_attrs)
  also have "\<dots> = close_pos 1 (Suc p + length as + length (events ts)) rest"
    using 2 by (simp add: add.assoc)
  finally show ?case by (simp add: events_def add.assoc)
next
  case (3 d nm ts)
  then obtain d' where d: "d = Suc d'" by (cases d) auto
  then show ?case using 3 by (simp add: events_def)
qed (simp_all add: events_def)

lemma ParseDecoder_events:
  "ParseDecoder (map Inr ts) = build (zero_node StartNode # events ts @ [zero_node EndNode])"
proof -
  obtain tb where "read_tokens (map Inr ts) ([zero_node StartNode], []) =
      Inr ([zero_node StartNode] @ events ts, tb)"
    using read_tokens_total by blast
  then show ?thesis by (simp add: ParseDecoder_def)
qed


lemma nested_built:
  assumes nt: "nested 0 ts"
  shows "\<exists>st. ParseDecoder (map Inr ts) = Inr (0, st)
          \<and> end' (nodes st ! 0) + 1 = length (nodes st)"
proof -
  let ?ns = "zero_node StartNode # events ts @ [zero_node EndNode]"
  have fr: "fresh ?ns" by (intro fresh_wrapped blank_events)
  note pe = ParseDecoder_events[of ts]
  note br = build_result[OF fr]
  have "close_pos 0 0 (map kind ?ns) = close_pos (Suc 0) 1 (map kind (events ts) @ [EndNode])"
    by simp
  also have "\<dots> = close_pos 1 (1 + length (events ts)) [EndNode]"
    using close_pos_events[OF nt] by simp
  finally have "close_pos 0 0 (map kind ?ns) = Some (1 + length (events ts))" by simp
  then obtain st where s: "build ?ns = Inr (0, st)" "end' (nodes st ! 0) = 1 + length (events ts)"
      "inv ?ns (Suc (1 + length (events ts))) st"
    using br by auto
  have "length (nodes st) = length ?ns" using s(3) by (simp add: inv_def inv_shape_def)
  then show ?thesis using s pe by simp
qed







section \<open>The string value of an element\<close>

lemma frag_text_Cons:
  "frag_text ns (i # is) = (if kind (ns ! i) = TextNode then text' (ns ! i) else []) @ frag_text ns is"
  by (simp add: frag_text_def)

lemma Bytes_size_Some:
  assumes "\<forall>i \<in> set is. i < nodes_len n \<and> i < length ns"
  shows "\<exists>k. Bytes_size ns n is sz = Some k"
  using assms by (induction "is" arbitrary: sz) (auto simp: node_at_def)

lemma Bytes_copy_eq:
  assumes "\<forall>i \<in> set is. i < nodes_len n \<and> i < length ns"
  shows "Bytes_copy ns n is acc = Some (acc @ frag_text ns is)"
  using assms
proof (induction "is" arbitrary: acc)
  case Nil
  then show ?case by (simp add: frag_text_def)
next
  case (Cons i "is")
  then show ?case by (simp add: node_at_def frag_text_Cons)
qed

lemma Bytes_Start:
  assumes "kind n = StartNode" "end' n \<le> nodes_len n" "end' n \<le> length ns"
  shows "Bytes ns n = Some (frag_text ns [pos n ..< end' n])"
proof -
  have v: "\<forall>i \<in> set [pos n ..< end' n]. i < nodes_len n \<and> i < length ns"
    using assms(2,3) by auto
  obtain k where "Bytes_size ns n [pos n ..< end' n] 0 = Some k"
    using Bytes_size_Some[OF v] by blast
  then show ?thesis using assms(1) Bytes_copy_eq[OF v] by (simp add: Bytes_def)
qed

lemma built_range:
  assumes b: "built ns0 q st" and n: "n < q" and k: "kind (nodes st ! n) = StartNode"
  shows "end' (nodes st ! n) \<le> nodes_len (nodes st ! n)" "end' (nodes st ! n) \<le> length (nodes st)"
proof -
  have o: "opened (kind (nodes st ! n))" using k by (simp add: opened_def)
  have "q < length (nodes st)" using b built_shape(1)[OF b] by (simp add: built_def)
  then show "end' (nodes st ! n) \<le> nodes_len (nodes st ! n)" "end' (nodes st ! n) \<le> length (nodes st)"
    using built_node(2,5)[OF b n o] by simp_all
qed

lemma frag_text_store:
  assumes "k \<le> length ns"
  shows "frag_text ns [0 ..< k] = concat (map text' (filter (\<lambda>m. kind m = TextNode) (take k ns)))"
proof -
  have "take k ns = map (\<lambda>i. ns ! i) [0 ..< k]"
    using assms by (simp add: list_eq_iff_nth_eq)
  then show ?thesis by (simp add: frag_text_def filter_map comp_def)
qed

lemma frag_text_cong:
  assumes "\<And>i. i \<in> set is \<Longrightarrow> kind (ns ! i) = kind (ns' ! i) \<and> text' (ns ! i) = text' (ns' ! i)"
  shows "frag_text ns is = frag_text ns' is"
proof -
  have a: "filter (\<lambda>i. kind (ns ! i) = TextNode) is = filter (\<lambda>i. kind (ns' ! i) = TextNode) is"
    using assms by (intro filter_cong) auto
  have b: "map (\<lambda>i. text' (ns ! i)) (filter (\<lambda>i. kind (ns' ! i) = TextNode) is)
      = map (\<lambda>i. text' (ns' ! i)) (filter (\<lambda>i. kind (ns' ! i) = TextNode) is)"
    using assms by (intro map_cong) auto
  show ?thesis by (simp only: frag_text_def a b)
qed

lemma events_text:
  "concat (map text' (filter (\<lambda>m. kind m = TextNode) (events ts))) = concat (map char_data ts)"
proof (induction ts)
  case Nil
  then show ?case by (simp add: events_def)
next
  case (Cons t ts)
  have "concat (map text' (filter (\<lambda>m. kind m = TextNode) (token_events t))) = char_data t"
    by (cases t) (auto simp: zero_node_def filter_empty_conv)
  then show ?case using Cons by (simp add: events_def)
qed

text \<open>
  C7: for well-nested tokens construction succeeds, the returned root is an element,
  the string value of the root (\<open>Bytes\<close> and \<open>String\<close>) is the text of the
  character data tokens of the document, in order, and the string value of every
  element is the text of the \<open>TextNode\<close> entries in its range, in order: comments,
  processing instructions and attributes add nothing.
\<close>

theorem string_value_of_elements:
  assumes "nested 0 ts"
  shows "\<exists>st. ParseDecoder (map Inr ts) = Inr (0, st)
       \<and> kind (nodes st ! 0) = StartNode
       \<and> Bytes (nodes st) (nodes st ! 0) = Some (concat (map char_data ts))
       \<and> String (nodes st) (nodes st ! 0) = Some (concat (map char_data ts))
       \<and> (\<forall>n < length (nodes st). kind (nodes st ! n) = StartNode \<longrightarrow>
             Bytes (nodes st) (nodes st ! n) =
               Some (concat (map (\<lambda>i. text' (nodes st ! i))
                   (filter (\<lambda>i. kind (nodes st ! i) = TextNode)
                     [pos (nodes st ! n) ..< end' (nodes st ! n)]))))"
proof -
  let ?ns = "zero_node StartNode # events ts @ [zero_node EndNode]"
  have fr: "fresh ?ns" by (intro fresh_wrapped blank_events)
  obtain st where pd: "ParseDecoder (map Inr ts) = Inr (0, st)"
    and e1: "end' (nodes st ! 0) + 1 = length (nodes st)"
    using nested_built[OF assms] by blast
  obtain q where b: "built ?ns q st"
    using build_success[OF fr] pd ParseDecoder_events[of ts] by auto
  have ln: "length (nodes st) = length ?ns" by (rule built_shape(1)[OF b])
  have q: "q = end' (nodes st ! 0)" "kind (?ns ! q) = EndNode" using b by (simp_all add: built_def)
  then have ql: "Suc q = length (nodes st)" using e1 by simp
  have k0: "kind (nodes st ! 0) = StartNode" using built_shape(2)[OF b, of 0] by simp
  have all: "Bytes (nodes st) (nodes st ! n) = Some (frag_text (nodes st) [pos (nodes st ! n) ..< end' (nodes st ! n)])"
    if n: "n < length (nodes st)" and k: "kind (nodes st ! n) = StartNode" for n
  proof -
    have "kind (nodes st ! q) = EndNode" using q(2) built_shape(2)[OF b, of q] ql ln by simp
    then have "n \<noteq> q" using k by auto
    then have nq: "n < q" using n ql by simp
    show ?thesis using Bytes_Start[OF k built_range[OF b nq k]] by simp
  qed
  have p0: "pos (nodes st ! 0) = 0"
    using built_node(1)[OF b, of 0] k0 ql ln by (simp add: opened_def)
  have "frag_text (nodes st) [0 ..< q] = frag_text ?ns [0 ..< q]"
  proof (rule frag_text_cong)
    fix i assume "i \<in> set [0 ..< q]"
    then have "i < length ?ns" using ql ln by auto
    then show "kind (nodes st ! i) = kind (?ns ! i) \<and> text' (nodes st ! i) = text' (?ns ! i)"
      using built_shape(2)[OF b, of i] by blast
  qed
  also have "\<dots> = concat (map text' (filter (\<lambda>m. kind m = TextNode) (take q ?ns)))"
    using ql ln by (intro frag_text_store) simp
  also have "take q ?ns = zero_node StartNode # events ts"
    using ql ln by simp
  also have "concat (map text' (filter (\<lambda>m. kind m = TextNode) (zero_node StartNode # events ts)))
      = concat (map char_data ts)"
    using events_text by simp
  finally have root: "Bytes (nodes st) (nodes st ! 0) = Some (concat (map char_data ts))"
    using all[of 0] k0 p0 q(1) ln by simp
  then have "String (nodes st) (nodes st ! 0) = Some (concat (map char_data ts))"
    using k0 by (simp add: String_def)
  then show ?thesis using pd k0 root all by (auto simp: frag_text_def)
qed

section \<open>contains on elements\<close>

text \<open>
  \<open>strings.HasPrefix\<close> and \<open>strings.Contains\<close> are the prefix and the sublist relation of
  lists; the loops of \<open>contains\<close> are characterised from the innermost outwards, with
  the text of the later fragments written \<open>frag_text\<close>.
\<close>

lemma HasPrefix_prefix: "HasPrefix s p = prefix p s"
proof
  assume "HasPrefix s p"
  then have "s = p @ drop (length p) s"
    by (metis HasPrefix_def append_take_drop_id)
  then show "prefix p s" by (metis prefixI)
next
  assume "prefix p s"
  then show "HasPrefix s p" by (auto simp: HasPrefix_def prefix_def)
qed

lemma Contains_sublist: "Contains s sub = sublist sub s"
  by (induction s) (simp_all add: HasPrefix_prefix sublist_Cons_right)

lemma drop_nth_Cons: "si < length s \<Longrightarrow> drop si s = s ! si # drop (Suc si) s"
  by (simp add: Cons_nth_drop_Suc)

lemma contains_here_eq:
  "si \<le> length s \<Longrightarrow>
     contains_here s si rest =
       (if prefix (drop si s) rest then Some (length s)
        else if prefix rest (drop si s) then Some (si + length rest) else None)"
proof (induction rest arbitrary: si)
  case Nil
  then show ?case by auto
next
  case (Cons c rest)
  show ?case
  proof (cases "si < length s")
    case True
    then have "Suc si \<le> length s" by simp
    from Cons.IH[OF this] True show ?thesis by (simp add: drop_nth_Cons)
  next
    case False
    then show ?thesis using Cons.prems by simp
  qed
qed

lemma contains_next_eq:
  "si < length s \<Longrightarrow>
     contains_next s si cs =
       (if prefix (drop si s) cs then Found
        else if prefix cs (drop si s) then Cont (si + length cs) else Mismatch)"
proof (induction cs arbitrary: si)
  case Nil
  then show ?case by simp
next
  case (Cons c cs)
  show ?case
  proof (cases "Suc si = length s")
    case True
    then show ?thesis using Cons.prems by (simp add: drop_nth_Cons)
  next
    case False
    then have "Suc si < length s" using Cons.prems by simp
    from Cons.IH[OF this] Cons.prems False show ?thesis by (simp add: drop_nth_Cons)
  qed
qed

lemma strict_prefix_length:
  assumes "prefix t d" "\<not> prefix d t"
  shows "length t < length d"
proof -
  obtain zs where d: "d = t @ zs" using assms(1) by (auto simp: prefix_def)
  then have "zs \<noteq> []" using assms(2) by auto
  then show ?thesis using d by simp
qed

lemma prefix_drop_add:
  assumes "prefix t (drop si s)"
  shows "drop si s = t @ drop (si + length t) s"
proof -
  obtain zs where d: "drop si s = t @ zs" using assms by (auto simp: prefix_def)
  have "drop (si + length t) s = drop (length t) (drop si s)" by (simp add: add.commute)
  then show ?thesis using d by simp
qed

lemma contains_later_eq:
  assumes "\<forall>j \<in> set js. j < nodes_len n \<and> j < length ns" "si < length s"
  shows "contains_later ns n s js si =
     Some (if prefix (drop si s) (frag_text ns js) then Found
           else if prefix (frag_text ns js) (drop si s) then Cont (si + length (frag_text ns js))
           else Mismatch)"
  using assms
proof (induction js arbitrary: si)
  case Nil
  then show ?case by (simp add: frag_text_def)
next
  case (Cons j js)
  have v: "\<forall>j \<in> set js. j < nodes_len n \<and> j < length ns" using Cons.prems(1) by simp
  have na: "node_at ns n j = Some (ns ! j)" using Cons.prems(1) by (simp add: node_at_def)
  let ?D = "drop si s" and ?F = "frag_text ns js"
  show ?case
  proof (cases "kind (ns ! j) = TextNode")
    case False
    then show ?thesis using Cons.IH[OF v Cons.prems(2)] na by (simp add: frag_text_Cons)
  next
    case True
    let ?T = "text' (ns ! j)"
    have ft: "frag_text ns (j # js) = ?T @ ?F" using True by (simp add: frag_text_Cons)
    note cn = contains_next_eq[OF Cons.prems(2), of ?T]
    consider (f) "prefix ?D ?T" | (c) "\<not> prefix ?D ?T" "prefix ?T ?D"
      | (m) "\<not> prefix ?D ?T" "\<not> prefix ?T ?D" by blast
    then show ?thesis
    proof cases
      case f
      then have "prefix ?D (?T @ ?F)" by (simp add: prefix_prefix)
      then show ?thesis using f cn na True ft by simp
    next
      case m
      have "\<not> prefix ?D (?T @ ?F)" using m by (auto simp: prefix_append)
      moreover have "\<not> prefix (?T @ ?F) ?D" using m(2) append_prefixD by blast
      ultimately show ?thesis using m cn na True ft by simp
    next
      case c
      let ?si = "si + length ?T"
      have lt: "?si < length s" using strict_prefix_length[OF c(2,1)] by simp
      have d: "?D = ?T @ drop ?si s" by (rule prefix_drop_add[OF c(2)])
      have p1: "prefix ?D (?T @ ?F) = prefix (drop ?si s) ?F"
        by (subst d) simp
      have p2: "prefix (?T @ ?F) ?D = prefix ?F (drop ?si s)"
        by (metis d same_prefix_prefix)
      have "contains_later ns n s (j # js) si = contains_later ns n s js ?si"
        using c cn na True by simp
      then show ?thesis using Cons.IH[OF v lt] ft p1 p2 by (simp add: add.assoc)
    qed
  qed
qed

lemma ex_less_Suc: "(\<exists>k < Suc m. P k) = (P 0 \<or> (\<exists>k < m. P (Suc k)))"
  by (metis less_Suc_eq_0_disj)

lemma contains_try_eq:
  assumes v: "\<forall>j \<in> set [i + 1 ..< end' n]. j < nodes_len n \<and> j < length ns" and s: "s \<noteq> []"
  shows "contains_try ns n s i t =
     Some (\<exists>k < length t. prefix s (drop k t @ frag_text ns [i + 1 ..< end' n]))"
proof (induction t)
  case Nil
  then show ?case by simp
next
  case (Cons c rest)
  let ?R = "frag_text ns [i + 1 ..< end' n]"
  let ?D = "drop 1 s"
  have s0: "s = s ! 0 # ?D" using s by (cases s) simp_all
  have l1: "1 \<le> length s" using s by (cases s) simp_all
  have ex: "(\<exists>k < length (c # rest). prefix s (drop k (c # rest) @ ?R))
      = (prefix s (c # rest @ ?R) \<or> (\<exists>k < length rest. prefix s (drop k rest @ ?R)))"
    by (simp add: ex_less_Suc)
  have head: "contains_try ns n s i (c # rest) =
      (if prefix s (c # rest @ ?R) then Some True else contains_try ns n s i rest)"
  proof (cases "c = s ! 0")
    case False
    then have "\<not> prefix s (c # rest @ ?R)" by (subst s0) simp
    then show ?thesis using False by simp
  next
    case True
    have p0: "prefix s (c # rest @ ?R) = prefix ?D (rest @ ?R)"
      using True by (subst s0) simp
    note ch = contains_here_eq[OF l1, of rest]
    consider (f) "prefix ?D rest" | (c) "\<not> prefix ?D rest" "prefix rest ?D"
      | (m) "\<not> prefix ?D rest" "\<not> prefix rest ?D" by blast
    then show ?thesis
    proof cases
      case f
      then have "prefix ?D (rest @ ?R)" by (simp add: prefix_prefix)
      then show ?thesis using f ch True p0 by simp
    next
      case m
      have "\<not> prefix ?D (rest @ ?R)" using m by (auto simp: prefix_append)
      then show ?thesis using m ch True p0 by simp
    next
      case c
      let ?si = "1 + length rest"
      have "length rest < length ?D" by (rule strict_prefix_length[OF c(2,1)])
      then have lt: "?si < length s" by simp
      have d: "?D = rest @ drop ?si s" by (rule prefix_drop_add[OF c(2)])
      have p1: "prefix ?D (rest @ ?R) = prefix (drop ?si s) ?R"
        by (subst d) simp
      note cl = contains_later_eq[OF v lt]
      have h: "contains_here s 1 rest = Some ?si" using c ch by simp
      show ?thesis
      proof (cases "prefix (drop ?si s) ?R")
        case True
        then show ?thesis using h lt cl \<open>c = s ! 0\<close> p0 p1 by simp
      next
        case False
        then show ?thesis using h lt cl \<open>c = s ! 0\<close> p0 p1 by simp
      qed
    qed
  qed
  show ?case unfolding ex head using Cons.IH by simp
qed

lemma sublist_append_frag:
  assumes "s \<noteq> []"
  shows "sublist s (t @ f) = ((\<exists>k < length t. prefix s (drop k t @ f)) \<or> sublist s f)"
proof (induction t)
  case Nil
  then show ?case by simp
next
  case (Cons c t)
  have "sublist s ((c # t) @ f) = (prefix s (c # t @ f) \<or> sublist s (t @ f))"
    by (simp add: sublist_Cons_right)
  then show ?case using Cons.IH by (simp add: ex_less_Suc disj_assoc)
qed

lemma contains_loop_eq:
  assumes v: "end' n \<le> nodes_len n" "end' n \<le> length ns" and s: "s \<noteq> []"
  shows "contains_loop ns n s [a ..< end' n] = Some (sublist s (frag_text ns [a ..< end' n]))"
proof (cases "a \<le> end' n")
  case False
  then show ?thesis using s by (simp add: frag_text_def)
next
  case True
  then show ?thesis
  proof (induction a rule: inc_induct)
    case base
    then show ?case using s by (simp add: frag_text_def)
  next
    case (step i)
    have u: "[i ..< end' n] = i # [Suc i ..< end' n]" using step.hyps(2) by (simp add: upt_conv_Cons)
    have na: "node_at ns n i = Some (ns ! i)" using step.hyps(2) v by (simp add: node_at_def)
    have vl: "\<forall>j \<in> set [i + 1 ..< end' n]. j < nodes_len n \<and> j < length ns" using v by auto
    note ct = contains_try_eq[OF vl s, of "text' (ns ! i)"]
    show ?case
    proof (cases "kind (ns ! i) = TextNode")
      case False
      then show ?thesis unfolding u using step.IH na by (simp add: frag_text_Cons)
    next
      case True
      have ft: "frag_text ns (i # [Suc i ..< end' n]) = text' (ns ! i) @ frag_text ns [Suc i ..< end' n]"
        using True by (simp add: frag_text_Cons)
      define P where "P = (\<exists>k<length (text' (ns ! i)).
              prefix s (drop k (text' (ns ! i)) @ frag_text ns [Suc i ..< end' n]))"
      have c1: "contains_try ns n s i (text' (ns ! i)) = Some P" using ct by (simp add: P_def)
      have c2: "sublist s (text' (ns ! i) @ frag_text ns [Suc i ..< end' n])
          = (P \<or> sublist s (frag_text ns [Suc i ..< end' n]))"
        unfolding P_def by (rule sublist_append_frag[OF s])
      show ?thesis unfolding u ft c2
        using step.IH na True c1 by (cases P) simp_all
    qed
  qed
qed

lemma contains_Start:
  assumes "kind n = StartNode" "end' n \<le> nodes_len n" "end' n \<le> length ns"
  shows "contains ns n s = Some (sublist s (frag_text ns [pos n ..< end' n]))"
proof (cases "s = []")
  case True
  then show ?thesis by (simp add: contains_def)
next
  case False
  then show ?thesis using assms(1) contains_loop_eq[OF assms(2,3) False]
    by (simp add: contains_def)
qed

text \<open>
  C3: for well-nested tokens, \<open>contains(s)\<close> on any element returns whether \<open>s\<close> is a
  contiguous run of the element's string value \<open>b\<close>, the value \<open>Bytes\<close> returns: the text
  of the \<open>TextNode\<close> entries in the element's range, in order. A run may start in one
  fragment and go on through any number of later ones, whatever lies between them;
  for the fragments \<open>ab\<close> and \<open>cd\<close> with a comment between them, \<open>contains("bc")\<close> is true.
\<close>

theorem contains_spans_fragments:
  assumes "nested 0 ts"
  shows "\<exists>st. ParseDecoder (map Inr ts) = Inr (0, st)
       \<and> (\<forall>n < length (nodes st). kind (nodes st ! n) = StartNode \<longrightarrow>
            (\<exists>b. Bytes (nodes st) (nodes st ! n) = Some b
               \<and> b = concat (map (\<lambda>i. text' (nodes st ! i))
                       (filter (\<lambda>i. kind (nodes st ! i) = TextNode)
                         [pos (nodes st ! n) ..< end' (nodes st ! n)]))
               \<and> (\<forall>s. contains (nodes st) (nodes st ! n) s = Some (\<exists>u v. b = u @ s @ v))))"
proof -
  let ?ns = "zero_node StartNode # events ts @ [zero_node EndNode]"
  have fr: "fresh ?ns" by (intro fresh_wrapped blank_events)
  obtain st where pd: "ParseDecoder (map Inr ts) = Inr (0, st)"
    and e1: "end' (nodes st ! 0) + 1 = length (nodes st)"
    using nested_built[OF assms] by blast
  obtain q where b: "built ?ns q st"
    using build_success[OF fr] pd ParseDecoder_events[of ts] by auto
  have ln: "length (nodes st) = length ?ns" by (rule built_shape(1)[OF b])
  have q: "q = end' (nodes st ! 0)" "kind (?ns ! q) = EndNode" using b by (simp_all add: built_def)
  then have ql: "Suc q = length (nodes st)" using e1 by simp
  have all: "\<exists>b. Bytes (nodes st) (nodes st ! n) = Some b
               \<and> b = concat (map (\<lambda>i. text' (nodes st ! i))
                       (filter (\<lambda>i. kind (nodes st ! i) = TextNode)
                         [pos (nodes st ! n) ..< end' (nodes st ! n)]))
               \<and> (\<forall>s. contains (nodes st) (nodes st ! n) s = Some (\<exists>u v. b = u @ s @ v))"
    if n: "n < length (nodes st)" and k: "kind (nodes st ! n) = StartNode" for n
  proof -
    have "kind (nodes st ! q) = EndNode" using q(2) built_shape(2)[OF b, of q] ql ln by simp
    then have "n \<noteq> q" using k by auto
    then have nq: "n < q" using n ql by simp
    note r = built_range[OF b nq k]
    let ?b = "frag_text (nodes st) [pos (nodes st ! n) ..< end' (nodes st ! n)]"
    have "Bytes (nodes st) (nodes st ! n) = Some ?b" by (rule Bytes_Start[OF k r])
    moreover have "contains (nodes st) (nodes st ! n) s = Some (\<exists>u v. ?b = u @ s @ v)" for s
      using contains_Start[OF k r, of s] by (simp add: sublist_def)
    ultimately show ?thesis by (simp add: frag_text_def)
  qed
  show ?thesis using pd all by blast
qed

section \<open>The theorems at a concrete document\<close>

text \<open>
  The document \<open>doc_hello\<close> is \<open><a x="1"><b>he</b>llo<!--c--></a>\<close>. Its node store is:
  0 the root, 1 \<open>a\<close>, 2 the attribute \<open>x\<close>, 3 \<open>b\<close>, 4 the text \<open>he\<close>, 5 the end of
  \<open>b\<close>, 6 the text \<open>llo\<close>, 7 the comment, 8 the end of \<open>a\<close>, 9 the end of the root.
\<close>

theorem children_are_listed_children_witness:
  "case ParseDecoder doc_hello of
     Inl e \<Rightarrow> False
   | Inr (r, st) \<Rightarrow>
       1 < length (nodes st) \<and> kind (nodes st ! 1) = StartNode
       \<and> down_view st 1 = [Some 3, Some 6, Some 7]
       \<and> [Some 3, Some 6, Some 7] =
           map Some (filter (\<lambda>i. up (nodes st ! i) = Some 1
               \<and> kind (nodes st ! i) \<in> {StartNode, TextNode, CommentNode, ProcInstNode})
             [0 ..< length (nodes st)])"
proof -
  have "case ParseDecoder doc_hello of
     Inl e \<Rightarrow> False
   | Inr (r, st) \<Rightarrow>
       1 < length (nodes st) \<and> kind (nodes st ! 1) = StartNode
       \<and> down_view st 1 = [Some 3, Some 6, Some 7]"
    by code_simp
  then obtain r st where e: "ParseDecoder doc_hello = Inr (r, st)"
    and f: "1 < length (nodes st)" "kind (nodes st ! 1) = StartNode"
      "down_view st 1 = [Some 3, Some 6, Some 7]"
    by (cases "ParseDecoder doc_hello") auto
  have "ParseDecoder doc_hello = Inr (r, st) \<or> ParseHTML (Inl EOF) = Inr (r, st)"
    using e by simp
  from children_are_listed_children[OF this f(1,2)] f(3)
  have "[Some 3, Some 6, Some 7] =
           map Some (filter (\<lambda>i. up (nodes st ! i) = Some 1
               \<and> kind (nodes st ! i) \<in> {StartNode, TextNode, CommentNode, ProcInstNode})
             [0 ..< length (nodes st)])"
    by simp
  then show ?thesis unfolding e using f by simp
qed

theorem ranges_nest_witness:
  "case ParseDecoder doc_hello of
     Inl e \<Rightarrow> False
   | Inr (r, st) \<Rightarrow>
       kind (nodes st ! 2) = AttrNode \<and> pos (nodes st ! 2) = 2 \<and> end' (nodes st ! 2) = 3
       \<and> descendant (nodes st) 1 4
       \<and> pos (nodes st ! 1) = 1 \<and> end' (nodes st ! 1) = 8
       \<and> pos (nodes st ! 4) = 4 \<and> end' (nodes st ! 4) = 5
       \<and> pos (nodes st ! 1) < pos (nodes st ! 4) \<and> end' (nodes st ! 4) \<le> end' (nodes st ! 1)
       \<and> up (nodes st ! 3) = up (nodes st ! 6)
       \<and> pos (nodes st ! 3) = 3 \<and> end' (nodes st ! 3) = 5 \<and> pos (nodes st ! 6) = 6"
proof -
  have "case ParseDecoder doc_hello of
     Inl e \<Rightarrow> False
   | Inr (r, st) \<Rightarrow>
       kind (nodes st ! 2) = AttrNode \<and> pos (nodes st ! 2) = 2 \<and> end' (nodes st ! 2) = 3
       \<and> length (nodes st) = 10 \<and> up (nodes st ! 4) = Some 3 \<and> up (nodes st ! 3) = Some 1
       \<and> pos (nodes st ! 1) = 1 \<and> end' (nodes st ! 1) = 8
       \<and> pos (nodes st ! 4) = 4 \<and> end' (nodes st ! 4) = 5
       \<and> up (nodes st ! 3) = up (nodes st ! 6)
       \<and> pos (nodes st ! 3) = 3 \<and> end' (nodes st ! 3) = 5 \<and> pos (nodes st ! 6) = 6"
    by code_simp
  then obtain r st where e: "ParseDecoder doc_hello = Inr (r, st)"
    and f: "kind (nodes st ! 2) = AttrNode" "pos (nodes st ! 2) = 2" "end' (nodes st ! 2) = 3"
      "length (nodes st) = 10" "up (nodes st ! 4) = Some 3" "up (nodes st ! 3) = Some 1"
      "pos (nodes st ! 1) = 1" "end' (nodes st ! 1) = 8"
      "pos (nodes st ! 4) = 4" "end' (nodes st ! 4) = 5"
      "up (nodes st ! 3) = up (nodes st ! 6)"
      "pos (nodes st ! 3) = 3" "end' (nodes st ! 3) = 5" "pos (nodes st ! 6) = 6"
    by (cases "ParseDecoder doc_hello") auto
  have d: "descendant (nodes st) 1 4"
    using f(4,5,6) by (intro descendant.below[of 4 _ 3] descendant.child) simp_all
  have "ParseDecoder doc_hello = Inr (r, st) \<or> ParseHTML (Inl EOF) = Inr (r, st)"
    using e by simp
  from ranges_nest[OF this] d
  have "pos (nodes st ! 1) < pos (nodes st ! 4) \<and> end' (nodes st ! 4) \<le> end' (nodes st ! 1)"
    by blast
  then show ?thesis unfolding e using f d by simp
qed

theorem root_is_synthetic_witness:
  "case ParseDecoder doc_hello of
     Inl e \<Rightarrow> False
   | Inr (r, st) \<Rightarrow>
       r = 0 \<and> kind (nodes st ! 0) = StartNode \<and> name (nodes st ! 0) = \<lparr>Space = [], Local = []\<rparr>
       \<and> up (nodes st ! 0) = None
       \<and> kind (nodes st ! 1) = StartNode \<and> name (nodes st ! 1) = local_name ''a''
       \<and> up (nodes st ! 1) = Some 0 \<and> Some 1 \<in> set (down_view st 0)"
proof -
  obtain r st where e: "ParseDecoder doc_hello = Inr (r, st)"
  proof -
    have "case ParseDecoder doc_hello of Inl e \<Rightarrow> False | Inr (r, st) \<Rightarrow> True" by code_simp
    then show ?thesis using that by (cases "ParseDecoder doc_hello") auto
  qed
  have "ParseDecoder doc_hello = Inr (r, st) \<or> ParseHTML (Inl EOF) = Inr (r, st)"
    using e by simp
  note t = root_is_synthetic[OF this]
  have d: "doc_hello = Inr (StartElement (local_name ''a'') [(local_name ''x'', ''1'')]) # tl doc_hello"
    by (simp add: doc_hello_def)
  have a: "kind (nodes st ! 1) = StartNode \<and> name (nodes st ! 1) = local_name ''a''
       \<and> up (nodes st ! 1) = Some r \<and> Some 1 \<in> set (down_view st r)"
    using t e d by blast
  have b: "r = 0" "kind (nodes st ! r) = StartNode"
    "name (nodes st ! r) = \<lparr>Space = [], Local = []\<rparr>" "up (nodes st ! r) = None"
    using t by blast+
  show ?thesis unfolding e using a b(2,3,4) unfolding b(1) by simp
qed


theorem string_value_of_elements_witness:
  "nested 0 hello_tokens
   \<and> (case ParseDecoder (map Inr hello_tokens) of
        Inl e \<Rightarrow> False
      | Inr (r, st) \<Rightarrow>
          r = 0 \<and> kind (nodes st ! 0) = StartNode
          \<and> Bytes (nodes st) (nodes st ! 0) = Some ''hello''
          \<and> String (nodes st) (nodes st ! 0) = Some ''hello''
          \<and> 3 < length (nodes st) \<and> kind (nodes st ! 3) = StartNode
          \<and> pos (nodes st ! 3) = 3 \<and> end' (nodes st ! 3) = 5
          \<and> kind (nodes st ! 4) = TextNode \<and> text' (nodes st ! 4) = ''he''
          \<and> Bytes (nodes st) (nodes st ! 3) = Some ''he'')"
proof -
  have n: "nested 0 hello_tokens" by (simp add: hello_tokens_def)
  have l: "case ParseDecoder (map Inr hello_tokens) of
        Inl e \<Rightarrow> False
      | Inr (r, st) \<Rightarrow> 3 < length (nodes st) \<and> kind (nodes st ! 3) = StartNode
          \<and> pos (nodes st ! 3) = 3 \<and> end' (nodes st ! 3) = 5
          \<and> kind (nodes st ! 4) = TextNode \<and> text' (nodes st ! 4) = ''he''
          \<and> Bytes (nodes st) (nodes st ! 3) = Some ''he''"
    by code_simp
  obtain st where e: "ParseDecoder (map Inr hello_tokens) = Inr (0, st)"
    and k: "kind (nodes st ! 0) = StartNode"
    and b: "Bytes (nodes st) (nodes st ! 0) = Some (concat (map char_data hello_tokens))"
    and s: "String (nodes st) (nodes st ! 0) = Some (concat (map char_data hello_tokens))"
    using string_value_of_elements[OF n] by blast
  have c: "concat (map char_data hello_tokens) = ''hello''" by (simp add: hello_tokens_def)
  show ?thesis unfolding e using n k b s l unfolding c e by simp
qed

theorem contains_spans_fragments_witness:
  "nested 0 straddle_tokens
   \<and> (case ParseDecoder (map Inr straddle_tokens) of
        Inl e \<Rightarrow> False
      | Inr (r, st) \<Rightarrow>
          r = 0 \<and> length (nodes st) = 7 \<and> kind (nodes st ! 1) = StartNode
          \<and> pos (nodes st ! 1) = 1 \<and> end' (nodes st ! 1) = 5
          \<and> map kind (nodes st) =
              [StartNode, StartNode, TextNode, CommentNode, TextNode, EndNode, EndNode]
          \<and> text' (nodes st ! 2) = ''ab'' \<and> text' (nodes st ! 3) = ''x''
          \<and> text' (nodes st ! 4) = ''cd''
          \<and> Bytes (nodes st) (nodes st ! 1) = Some ''abcd''
          \<and> contains (nodes st) (nodes st ! 1) ''bc'' = Some True)"
proof -
  have n: "nested 0 straddle_tokens" by (simp add: straddle_tokens_def)
  have l: "case ParseDecoder (map Inr straddle_tokens) of
        Inl e \<Rightarrow> False
      | Inr (r, st) \<Rightarrow> length (nodes st) = 7 \<and> kind (nodes st ! 1) = StartNode
          \<and> pos (nodes st ! 1) = 1 \<and> end' (nodes st ! 1) = 5
          \<and> map kind (nodes st) =
              [StartNode, StartNode, TextNode, CommentNode, TextNode, EndNode, EndNode]
          \<and> text' (nodes st ! 2) = ''ab'' \<and> text' (nodes st ! 3) = ''x''
          \<and> text' (nodes st ! 4) = ''cd''
          \<and> Bytes (nodes st) (nodes st ! 1) = Some ''abcd''"
    by code_simp
  obtain st where e: "ParseDecoder (map Inr straddle_tokens) = Inr (0, st)"
    and a: "\<forall>n < length (nodes st). kind (nodes st ! n) = StartNode \<longrightarrow>
            (\<exists>b. Bytes (nodes st) (nodes st ! n) = Some b
               \<and> b = concat (map (\<lambda>i. text' (nodes st ! i))
                       (filter (\<lambda>i. kind (nodes st ! i) = TextNode)
                         [pos (nodes st ! n) ..< end' (nodes st ! n)]))
               \<and> (\<forall>s. contains (nodes st) (nodes st ! n) s = Some (\<exists>u v. b = u @ s @ v)))"
    using contains_spans_fragments[OF n] by blast
  have f: "length (nodes st) = 7" "kind (nodes st ! 1) = StartNode"
    "Bytes (nodes st) (nodes st ! 1) = Some ''abcd''"
    using l e by simp_all
  have "1 < length (nodes st)" using f(1) by simp
  then obtain b where b: "Bytes (nodes st) (nodes st ! 1) = Some b"
    and c: "\<forall>s. contains (nodes st) (nodes st ! 1) s = Some (\<exists>u v. b = u @ s @ v)"
    using a f(2) by blast
  have b': "b = ''abcd''" using b f(3) by simp
  have "''abcd'' = ''a'' @ ''bc'' @ ''d''" by simp
  then have "\<exists>u v. ''abcd'' = u @ ''bc'' @ v" by blast
  then have t: "contains (nodes st) (nodes st ! 1) ''bc'' = Some True"
    using c b' by simp
  show ?thesis unfolding e using n l t unfolding e by simp
qed

end
